theory Spec2Isabelle
  imports Main "HOL-Library.Word" "HOL-Library.Sublist"
begin

section \<open>Strings of the runtime\<close>

text \<open>
  A JavaScript string is a finite sequence of UTF-16 code units. String literals of the
  source are ASCII and are written with \<open>lit\<close>.
\<close>

type_synonym jschar = "16 word"
type_synonym jsstring = "jschar list"

definition lit :: "string \<Rightarrow> jsstring" where
  "lit s = map of_char s"

abbreviation LF :: jschar where "LF \<equiv> 0x0A"
abbreviation CR :: jschar where "CR \<equiv> 0x0D"
abbreviation QUOTE :: jschar where "QUOTE \<equiv> 0x22"
abbreviation BACKSLASH :: jschar where "BACKSLASH \<equiv> 0x5C"

text \<open>\<open>Array.prototype.join\<close> on an array of strings.\<close>

fun join :: "jsstring \<Rightarrow> jsstring list \<Rightarrow> jsstring" where
  "join sep [] = []"
| "join sep [x] = x"
| "join sep (x # y # xs) = x @ sep @ join sep (y # xs)"

text \<open>\<open>String.prototype.includes\<close>: the needle occurs at some position of the text.\<close>

fun startsWith :: "jsstring \<Rightarrow> jsstring \<Rightarrow> bool" where
  "startsWith s [] = True"
| "startsWith [] (q # qs) = False"
| "startsWith (c # cs) (q # qs) = (c = q \<and> startsWith cs qs)"

fun String_includes :: "jsstring \<Rightarrow> jsstring \<Rightarrow> bool" where
  "String_includes [] q = (q = [])"
| "String_includes (c # cs) q = (startsWith (c # cs) q \<or> String_includes cs q)"

text \<open>
  \<open>text.split(/\r?\n/)\<close>. The scan keeps the segment read so far; a line feed, or a
  carriage return directly followed by a line feed, closes the segment and is dropped. A
  carriage return that no line feed follows stays in its segment.
\<close>

fun split_from :: "jsstring \<Rightarrow> jsstring \<Rightarrow> jsstring list" where
  "split_from cur [] = [cur]"
| "split_from cur [c] = (if c = LF then [cur, []] else [cur @ [c]])"
| "split_from cur (c # d # cs) =
     (if c = CR \<and> d = LF then cur # split_from [] cs
      else if c = LF then cur # split_from [] (d # cs)
      else split_from (cur @ [c]) (d # cs))"

definition split_lines :: "jsstring \<Rightarrow> jsstring list" where
  "split_lines s = split_from [] s"

text \<open>
  Writing a string to a file as UTF-8 and reading it back: a surrogate pair survives, a
  surrogate code unit outside a pair comes back as U+FFFD, every other code unit is
  unchanged.
\<close>

definition isLeadingSurrogate :: "jschar \<Rightarrow> bool" where
  "isLeadingSurrogate c = (0xD800 \<le> c \<and> c \<le> 0xDBFF)"
definition isTrailingSurrogate :: "jschar \<Rightarrow> bool" where
  "isTrailingSurrogate c = (0xDC00 \<le> c \<and> c \<le> 0xDFFF)"

fun toWellFormed :: "jsstring \<Rightarrow> jsstring" where
  "toWellFormed [] = []"
| "toWellFormed [c] = (if isLeadingSurrogate c \<or> isTrailingSurrogate c then [0xFFFD] else [c])"
| "toWellFormed (c # d # cs) =
     (if isLeadingSurrogate c \<and> isTrailingSurrogate d then c # d # toWellFormed cs
      else if isLeadingSurrogate c \<or> isTrailingSurrogate c then 0xFFFD # toWellFormed (d # cs)
      else c # toWellFormed (d # cs))"

section \<open>JSON of the runtime\<close>

subsection \<open>Serialising a string\<close>

text \<open>
  \<open>QuoteJSONString\<close> of ECMA-262 (ES2019 and later, so Node.js 12 and later; the
  package asks for Node.js 18), as \<open>JSON.stringify\<close> applies it to a string: the
  two-character escapes, \<open>\uXXXX\<close> with lower-case digits for the other control
  characters and for a surrogate outside a pair, and every other code unit as it is.
\<close>

definition hex_digit :: "nat \<Rightarrow> jschar" where
  "hex_digit d = (if d < 10 then of_nat (48 + d) else of_nat (87 + d))"

definition UnicodeEscape :: "jschar \<Rightarrow> jsstring" where
  "UnicodeEscape c =
     (let n = unat c
      in [BACKSLASH, 0x75, hex_digit (n div 4096), hex_digit (n div 256 mod 16),
          hex_digit (n div 16 mod 16), hex_digit (n mod 16)])"

definition escape_unit :: "jschar \<Rightarrow> jsstring" where
  "escape_unit c =
     (if c = 0x08 then [BACKSLASH, 0x62]
      else if c = 0x09 then [BACKSLASH, 0x74]
      else if c = 0x0A then [BACKSLASH, 0x6E]
      else if c = 0x0C then [BACKSLASH, 0x66]
      else if c = 0x0D then [BACKSLASH, 0x72]
      else if c = QUOTE then [BACKSLASH, QUOTE]
      else if c = BACKSLASH then [BACKSLASH, BACKSLASH]
      else if c < 0x20 \<or> isLeadingSurrogate c \<or> isTrailingSurrogate c then UnicodeEscape c
      else [c])"

fun quote_units :: "jsstring \<Rightarrow> jsstring" where
  "quote_units [] = []"
| "quote_units [c] = escape_unit c"
| "quote_units (c # d # cs) =
     (if isLeadingSurrogate c \<and> isTrailingSurrogate d then c # d # quote_units cs
      else escape_unit c @ quote_units (d # cs))"

definition QuoteJSONString :: "jsstring \<Rightarrow> jsstring" where
  "QuoteJSONString s = QUOTE # quote_units s @ [QUOTE]"

subsection \<open>Parsing\<close>

text \<open>
  The values of \<open>JSON.parse\<close>. A number keeps its lexeme: the program only asks for
  its type. An object keeps its members in the order of the text; a name that occurs
  twice has the value of its last occurrence (\<open>get_property\<close> below).
\<close>

datatype json =
    JNull
  | JBool bool
  | JNumber jsstring
  | JString jsstring
  | JArray "json list"
  | JObject "(jsstring \<times> json) list"

text \<open>
  The characters of a string literal after its opening quote, up to the closing quote:
  the decoded string and the text after the literal.
\<close>

definition hex_value :: "jschar \<Rightarrow> nat option" where
  "hex_value h =
     (let n = unat h
      in if 48 \<le> n \<and> n \<le> 57 then Some (n - 48)
         else if 97 \<le> n \<and> n \<le> 102 then Some (n - 87)
         else if 65 \<le> n \<and> n \<le> 70 then Some (n - 55)
         else None)"

definition hex4 :: "jschar \<Rightarrow> jschar \<Rightarrow> jschar \<Rightarrow> jschar \<Rightarrow> jschar option" where
  "hex4 h1 h2 h3 h4 =
     (case (hex_value h1, hex_value h2, hex_value h3, hex_value h4) of
        (Some a, Some b, Some c, Some d) \<Rightarrow> Some (of_nat (4096 * a + 256 * b + 16 * c + d))
      | _ \<Rightarrow> None)"

definition unescape :: "jschar \<Rightarrow> jschar option" where
  "unescape e =
     (if e = QUOTE then Some QUOTE
      else if e = BACKSLASH then Some BACKSLASH
      else if e = 0x2F then Some 0x2F
      else if e = 0x62 then Some 0x08
      else if e = 0x66 then Some 0x0C
      else if e = 0x6E then Some 0x0A
      else if e = 0x72 then Some 0x0D
      else if e = 0x74 then Some 0x09
      else None)"

fun parse_string_chars :: "jsstring \<Rightarrow> (jsstring \<times> jsstring) option" where
  "parse_string_chars [] = None"
| "parse_string_chars (c # cs) =
     (if c = QUOTE then Some ([], cs)
      else if c = BACKSLASH then
        (case cs of
           [] \<Rightarrow> None
         | e # es \<Rightarrow>
             if e = 0x75 then
               (case es of
                  h1 # h2 # h3 # h4 # r \<Rightarrow>
                    (case hex4 h1 h2 h3 h4 of
                       None \<Rightarrow> None
                     | Some u \<Rightarrow>
                         (case parse_string_chars r of
                            None \<Rightarrow> None
                          | Some (s, rest) \<Rightarrow> Some (u # s, rest)))
                | _ \<Rightarrow> None)
             else
               (case unescape e of
                  None \<Rightarrow> None
                | Some u \<Rightarrow>
                    (case parse_string_chars es of
                       None \<Rightarrow> None
                     | Some (s, rest) \<Rightarrow> Some (u # s, rest))))
      else if c < 0x20 then None
      else
        (case parse_string_chars cs of
           None \<Rightarrow> None
         | Some (s, rest) \<Rightarrow> Some (c # s, rest)))"

definition is_ws :: "jschar \<Rightarrow> bool" where
  "is_ws c = (c = 0x20 \<or> c = 0x09 \<or> c = LF \<or> c = CR)"

fun skip_ws :: "jsstring \<Rightarrow> jsstring" where
  "skip_ws [] = []"
| "skip_ws (c # cs) = (if is_ws c then skip_ws cs else c # cs)"

definition is_digit :: "jschar \<Rightarrow> bool" where
  "is_digit c = (0x30 \<le> c \<and> c \<le> 0x39)"

text \<open>
  Numbers: an optional minus, an integer part without a leading zero, an optional
  fraction and an optional exponent. \<open>take_digits\<close> is the longest run of digits at the
  head and what follows it.
\<close>

fun take_digits :: "jsstring \<Rightarrow> jsstring \<times> jsstring" where
  "take_digits [] = ([], [])"
| "take_digits (c # cs) =
     (if is_digit c then (case take_digits cs of (ds, r) \<Rightarrow> (c # ds, r)) else ([], c # cs))"

definition parse_int_part :: "jsstring \<Rightarrow> (jsstring \<times> jsstring) option" where
  "parse_int_part s =
     (case s of
        [] \<Rightarrow> None
      | c # cs \<Rightarrow>
          if c = 0x30 then Some ([c], cs)
          else if is_digit c then (case take_digits cs of (ds, r) \<Rightarrow> Some (c # ds, r))
          else None)"

definition parse_frac_part :: "jsstring \<Rightarrow> (jsstring \<times> jsstring) option" where
  "parse_frac_part s =
     (case s of
        c # cs \<Rightarrow>
          if c = 0x2E then
            (case take_digits cs of (ds, r) \<Rightarrow> if ds = [] then None else Some (c # ds, r))
          else Some ([], s)
      | [] \<Rightarrow> Some ([], s))"

definition parse_exp_part :: "jsstring \<Rightarrow> (jsstring \<times> jsstring) option" where
  "parse_exp_part s =
     (case s of
        c # cs \<Rightarrow>
          if c = 0x65 \<or> c = 0x45 then
            (case cs of
               g # gs \<Rightarrow>
                 if g = 0x2B \<or> g = 0x2D then
                   (case take_digits gs of (ds, r) \<Rightarrow> if ds = [] then None else Some (c # g # ds, r))
                 else
                   (case take_digits cs of (ds, r) \<Rightarrow> if ds = [] then None else Some (c # ds, r))
             | [] \<Rightarrow> None)
          else Some ([], s)
      | [] \<Rightarrow> Some ([], s))"

definition parse_number :: "jsstring \<Rightarrow> (jsstring \<times> jsstring) option" where
  "parse_number s =
     (let (sign, s1) = (case s of c # cs \<Rightarrow> if c = 0x2D then ([c], cs) else ([], s) | [] \<Rightarrow> ([], s))
      in case parse_int_part s1 of
           None \<Rightarrow> None
         | Some (ip, s2) \<Rightarrow>
             (case parse_frac_part s2 of
                None \<Rightarrow> None
              | Some (fp, s3) \<Rightarrow>
                  (case parse_exp_part s3 of
                     None \<Rightarrow> None
                   | Some (ep, s4) \<Rightarrow> Some (sign @ ip @ fp @ ep, s4))))"

definition parse_literal :: "jsstring \<Rightarrow> (json \<times> jsstring) option" where
  "parse_literal s =
     (if startsWith s (lit ''true'') then Some (JBool True, drop 4 s)
      else if startsWith s (lit ''false'') then Some (JBool False, drop 5 s)
      else if startsWith s (lit ''null'') then Some (JNull, drop 4 s)
      else None)"

text \<open>A value that is neither an array nor an object.\<close>

definition parse_scalar :: "jsstring \<Rightarrow> (json \<times> jsstring) option" where
  "parse_scalar s =
     (case s of
        [] \<Rightarrow> None
      | c # cs \<Rightarrow>
          if c = QUOTE then
            (case parse_string_chars cs of None \<Rightarrow> None | Some (str, r) \<Rightarrow> Some (JString str, r))
          else if c = 0x2D \<or> is_digit c then
            (case parse_number s of None \<Rightarrow> None | Some (n, r) \<Rightarrow> Some (JNumber n, r))
          else parse_literal s)"

text \<open>
  Values, the elements of an array after its opening bracket and the members of an object
  after its opening brace. Each recursive call that follows another one tests that the
  text left is shorter than the text it started from; \<open>parse_elements_unguarded\<close>
  and \<open>parse_members_unguarded\<close> below show that the test never fails.
\<close>

function (sequential) parse_value :: "jsstring \<Rightarrow> (json \<times> jsstring) option"
  and parse_elements :: "jsstring \<Rightarrow> (json list \<times> jsstring) option"
  and parse_members :: "jsstring \<Rightarrow> ((jsstring \<times> json) list \<times> jsstring) option"
where
  "parse_value s =
     (case skip_ws s of
        [] \<Rightarrow> None
      | c # cs \<Rightarrow>
          if c = 0x5B then
            (case skip_ws cs of
               [] \<Rightarrow> None
             | d # ds \<Rightarrow>
                 if d = 0x5D then Some (JArray [], ds)
                 else (case parse_elements (d # ds) of
                         None \<Rightarrow> None
                       | Some (vs, r) \<Rightarrow> Some (JArray vs, r)))
          else if c = 0x7B then
            (case skip_ws cs of
               [] \<Rightarrow> None
             | d # ds \<Rightarrow>
                 if d = 0x7D then Some (JObject [], ds)
                 else (case parse_members (d # ds) of
                         None \<Rightarrow> None
                       | Some (ms, r) \<Rightarrow> Some (JObject ms, r)))
          else parse_scalar (c # cs))"
| "parse_elements s =
     (case parse_value s of
        None \<Rightarrow> None
      | Some (v, r) \<Rightarrow>
          (case skip_ws r of
             [] \<Rightarrow> None
           | c # cs \<Rightarrow>
               if c = 0x5D then Some ([v], cs)
               else if c = 0x2C \<and> length cs < length s then
                 (case parse_elements cs of
                    None \<Rightarrow> None
                  | Some (vs, r') \<Rightarrow> Some (v # vs, r'))
               else None))"
| "parse_members s =
     (case skip_ws s of
        [] \<Rightarrow> None
      | q # qs \<Rightarrow>
          if q \<noteq> QUOTE then None
          else
            (case parse_string_chars qs of
               None \<Rightarrow> None
             | Some (k, r1) \<Rightarrow>
                 (case skip_ws r1 of
                    [] \<Rightarrow> None
                  | c # cs \<Rightarrow>
                      if c = 0x3A \<and> length cs < length s then
                        (case parse_value cs of
                           None \<Rightarrow> None
                         | Some (v, r2) \<Rightarrow>
                             (case skip_ws r2 of
                                [] \<Rightarrow> None
                              | e # es \<Rightarrow>
                                  if e = 0x7D then Some ([(k, v)], es)
                                  else if e = 0x2C \<and> length es < length s then
                                    (case parse_members es of
                                       None \<Rightarrow> None
                                     | Some (ms, r3) \<Rightarrow> Some ((k, v) # ms, r3))
                                  else None))
                      else None)))"
  by pat_completeness auto
termination
proof (relation "measure (\<lambda>x. case x of
          Inl s \<Rightarrow> 2 * length s
        | Inr (Inl s) \<Rightarrow> 2 * length s + 1
        | Inr (Inr s) \<Rightarrow> 2 * length s + 1)", goal_cases)
  case 1
  show ?case by simp
next
  case (2 s c cs d ds)
  have "\<And>t. length (skip_ws t) \<le> length t"
  proof -
    fix t show "length (skip_ws t) \<le> length t" by (induction t) auto
  qed
  from this [of s] this [of cs] 2 show ?case by auto
next
  case (3 s c cs d ds)
  have "\<And>t. length (skip_ws t) \<le> length t"
  proof -
    fix t show "length (skip_ws t) \<le> length t" by (induction t) auto
  qed
  from this [of s] this [of cs] 3 show ?case by auto
next
  case (4 s)
  show ?case by simp
next
  case 5
  then show ?case by simp
next
  case 6
  then show ?case by simp
next
  case 7
  then show ?case by simp
qed

declare parse_value.simps [simp del] parse_elements.simps [simp del] parse_members.simps [simp del]

text \<open>\<open>JSON.parse\<close>: one value, with white space around it, and nothing else. \<open>None\<close> is the SyntaxError.\<close>

definition JSON_parse :: "jsstring \<Rightarrow> json option" where
  "JSON_parse s =
     (case parse_value s of
        None \<Rightarrow> None
      | Some (v, r) \<Rightarrow> if skip_ws r = [] then Some v else None)"


section \<open>Entries\<close>

text \<open>
  The type \<open>NoteEntry\<close> of the source. Its fields \<open>id\<close>, \<open>text\<close> and \<open>file\<close> are
  named \<open>entry_id\<close>, \<open>entry_text\<close> and \<open>entry_file\<close> here. An optional field is
  \<open>None\<close> when its value is undefined, whether the object has the property or not: the
  program never tells the two apart.
\<close>

record NoteEntry =
  entry_id :: jsstring
  timestamp :: jsstring
  entry_text :: jsstring
  entry_file :: "jsstring option"
  kind :: "jsstring option"

text \<open>
  What \<open>makeEntry\<close> takes from its surroundings: the value \<open>crypto.randomUUID()\<close>
  returns and the value of \<open>new Date().toISOString()\<close> at the call.
\<close>

record env =
  randomUUID :: jsstring
  now_ISO :: jsstring

definition makeEntry :: "env \<Rightarrow> jsstring \<Rightarrow> jsstring option \<Rightarrow> jsstring option \<Rightarrow> jsstring option \<Rightarrow> NoteEntry" where
  "makeEntry ev txt file_arg timestamp_arg kind_arg =
     \<lparr> entry_id = randomUUID ev,
       timestamp = (case timestamp_arg of None \<Rightarrow> now_ISO ev | Some t \<Rightarrow> t),
       entry_text = txt,
       entry_file = file_arg,
       kind = kind_arg \<rparr>"

subsection \<open>Encoding: \<open>JSON.stringify(entry)\<close>\<close>

text \<open>
  The properties in the order \<open>makeEntry\<close> writes them, an undefined one left out, no
  white space.
\<close>

definition json_member :: "string \<Rightarrow> jsstring \<Rightarrow> jsstring" where
  "json_member key v = QuoteJSONString (lit key) @ [0x3A] @ QuoteJSONString v"

definition JSON_stringify :: "NoteEntry \<Rightarrow> jsstring" where
  "JSON_stringify entry =
     (let partial =
            [json_member ''id'' (entry_id entry),
             json_member ''timestamp'' (timestamp entry),
             json_member ''text'' (entry_text entry)]
            @ (case entry_file entry of None \<Rightarrow> [] | Some f \<Rightarrow> [json_member ''file'' f])
            @ (case kind entry of None \<Rightarrow> [] | Some k \<Rightarrow> [json_member ''kind'' k])
      in [0x7B] @ join [0x2C] partial @ [0x7D])"

subsection \<open>Decoding: \<open>isNoteEntry\<close>\<close>

text \<open>
  \<open>record.name\<close> on a parsed value: \<open>None\<close> is undefined. An array has none of the
  five names the program asks for.
\<close>

fun get_property :: "json \<Rightarrow> string \<Rightarrow> json option" where
  "get_property (JObject ms) key = map_of (rev ms) (lit key)"
| "get_property v key = None"

fun typeof_string :: "json option \<Rightarrow> bool" where
  "typeof_string (Some (JString s)) = True"
| "typeof_string v = False"

text \<open>A value that is truthy and whose \<open>typeof\<close> is \<open>"object"\<close>.\<close>

fun is_object :: "json \<Rightarrow> bool" where
  "is_object (JObject ms) = True"
| "is_object (JArray vs) = True"
| "is_object v = False"

definition isNoteEntry :: "json \<Rightarrow> bool" where
  "isNoteEntry v =
     (if \<not> is_object v then False
      else if \<not> typeof_string (get_property v ''id'') then False
      else if \<not> typeof_string (get_property v ''timestamp'') then False
      else if \<not> typeof_string (get_property v ''text'') then False
      else if get_property v ''file'' \<noteq> None \<and> \<not> typeof_string (get_property v ''file'') then False
      else if get_property v ''kind'' \<noteq> None \<and> \<not> typeof_string (get_property v ''kind'') then False
      else True)"

text \<open>
  A parsed value that passed \<open>isNoteEntry\<close>, read as a \<open>NoteEntry\<close>: the five
  properties the program reads from it.
\<close>

fun string_field :: "json option \<Rightarrow> jsstring" where
  "string_field (Some (JString s)) = s"
| "string_field v = []"

fun optional_field :: "json option \<Rightarrow> jsstring option" where
  "optional_field (Some (JString s)) = Some s"
| "optional_field v = None"

definition as_NoteEntry :: "json \<Rightarrow> NoteEntry" where
  "as_NoteEntry v =
     \<lparr> entry_id = string_field (get_property v ''id''),
       timestamp = string_field (get_property v ''timestamp''),
       entry_text = string_field (get_property v ''text''),
       entry_file = optional_field (get_property v ''file''),
       kind = optional_field (get_property v ''kind'') \<rparr>"

subsection \<open>Formatting\<close>

text \<open>
  The test \<open>if (entry.kind)\<close> of the source: an optional string is truthy when it is
  defined and not the empty string.
\<close>

fun truthy :: "jsstring option \<Rightarrow> bool" where
  "truthy None = False"
| "truthy (Some s) = (s \<noteq> [])"

definition formatEntry :: "NoteEntry \<Rightarrow> jsstring" where
  "formatEntry entry =
     (let lines0 = [lit ''id: '' @ entry_id entry, lit ''timestamp: '' @ timestamp entry];
          lines1 = (case kind entry of
                      Some k \<Rightarrow> if truthy (Some k) then lines0 @ [lit ''kind: '' @ k] else lines0
                    | None \<Rightarrow> lines0);
          lines2 = (case entry_file entry of
                      Some f \<Rightarrow> if truthy (Some f) then lines1 @ [lit ''file: '' @ f] else lines1
                    | None \<Rightarrow> lines1);
          lines3 = lines2 @ [lit ''text:''];
          lines4 = lines3 @ [entry_text entry]
      in join [LF] lines4)"

definition formatEntries :: "NoteEntry list \<Rightarrow> jsstring \<Rightarrow> jsstring" where
  "formatEntries entries emptyMessage =
     (if length entries = 0 then emptyMessage
      else join [LF, LF] (map formatEntry entries))"

section \<open>The store\<close>

subsection \<open>The file system\<close>

text \<open>
  The store file and its directory. The content of a file is the string a UTF-8 read
  returns. \<open>Unreadable e\<close> is a path whose reads fail with the error \<open>e\<close> (a
  directory in the file's place, a permission that is missing); what such a path holds is
  not followed. \<open>mkdir_fault\<close> and \<open>append_fault\<close> are the errors with which the
  platform rejects \<open>fs.mkdir\<close> of the directory and \<open>fs.appendFile\<close> to the file (a
  permission that is missing, a full disk, a directory in the file's place), \<open>None\<close>
  when it accepts them. They are the state of the disk, which the program does not change.
\<close>

record ErrnoException =
  code :: string
  syscall :: string

datatype file_node = Absent | Unreadable ErrnoException | Content jsstring

record fs =
  dir_exists :: bool
  store_file :: file_node
  mkdir_fault :: "ErrnoException option"
  append_fault :: "ErrnoException option"

definition ENOENT :: "string \<Rightarrow> ErrnoException" where
  "ENOENT call = \<lparr> code = ''ENOENT'', syscall = call \<rparr>"

definition fs_readFile :: "fs \<Rightarrow> ErrnoException + jsstring" where
  "fs_readFile s =
     (case store_file s of
        Absent \<Rightarrow> Inl (ENOENT ''open'')
      | Unreadable e \<Rightarrow> Inl e
      | Content t \<Rightarrow> Inr t)"

text \<open>
  \<open>fs.mkdir\<close> with \<open>recursive: true\<close>: it rejects with the fault of the platform,
  and otherwise the directory exists afterwards, whether it was there or not.
\<close>

definition fs_mkdir :: "fs \<Rightarrow> ErrnoException option \<times> fs" where
  "fs_mkdir s =
     (case mkdir_fault s of
        Some e \<Rightarrow> (Some e, s)
      | None \<Rightarrow> (None, s \<lparr> dir_exists := True \<rparr>))"

text \<open>
  \<open>fs.appendFile\<close>: it rejects with the fault of the platform, or with \<open>ENOENT\<close>
  when the directory is not there, and nothing is written then. Otherwise the file is
  created when it is absent; what was there stays, and the data is encoded as UTF-8 after
  it. An append to a path that cannot be read leaves the reads failing as before.
\<close>

definition fs_appendFile :: "fs \<Rightarrow> jsstring \<Rightarrow> ErrnoException option \<times> fs" where
  "fs_appendFile s data =
     (case append_fault s of
        Some e \<Rightarrow> (Some e, s)
      | None \<Rightarrow>
          if \<not> dir_exists s then (Some (ENOENT ''open''), s)
          else case store_file s of
                 Absent \<Rightarrow> (None, s \<lparr> store_file := Content (toWellFormed data) \<rparr>)
               | Unreadable e \<Rightarrow> (None, s)
               | Content t \<Rightarrow> (None, s \<lparr> store_file := Content (t @ toWellFormed data) \<rparr>))"

subsection \<open>Where the store is\<close>

text \<open>
  What \<open>resolveStorePath\<close> takes from the platform: \<open>os.homedir()\<close>, \<open>path.join\<close> and
  \<open>path.resolve\<close>. The argument of \<open>resolveStorePath\<close> is the value of
  \<open>process.env.THREADKEEPER_STORE_PATH\<close>, \<open>None\<close> when the variable is not set.
\<close>

record platform =
  homedir :: jsstring
  path_join :: "jsstring list \<Rightarrow> jsstring"
  path_resolve :: "jsstring \<Rightarrow> jsstring"

definition DEFAULT_STORE_PATH :: "platform \<Rightarrow> jsstring" where
  "DEFAULT_STORE_PATH p = path_join p [homedir p, lit ''.threadkeeper'', lit ''notes.jsonl'']"

definition resolveStorePath :: "platform \<Rightarrow> jsstring option \<Rightarrow> jsstring" where
  "resolveStorePath p override =
     (case override of
        None \<Rightarrow> DEFAULT_STORE_PATH p
      | Some v \<Rightarrow> if \<not> truthy (Some v) then DEFAULT_STORE_PATH p else path_resolve p v)"

subsection \<open>Loading and appending\<close>

text \<open>What the store throws: a file system error as it came, or one of its two messages
  with the 1-based number of the line.\<close>

datatype thrown =
    IOFailure ErrnoException
  | InvalidStoreFormat nat
  | InvalidNoteEntry nat

definition ensureStoreDir :: "fs \<Rightarrow> ErrnoException option \<times> fs" where
  "ensureStoreDir s = fs_mkdir s"

text \<open>
  The loop of \<open>loadEntries\<close> over \<open>lines\<close> from index \<open>i\<close> on, with the entries pushed
  so far.
\<close>

fun load_loop :: "jsstring list \<Rightarrow> nat \<Rightarrow> NoteEntry list \<Rightarrow> thrown + NoteEntry list" where
  "load_loop [] i entries = Inr entries"
| "load_loop (line # rest) i entries =
     (if line = [] then load_loop rest (i + 1) entries
      else case JSON_parse line of
             None \<Rightarrow> Inl (InvalidStoreFormat (i + 1))
           | Some parsed \<Rightarrow>
               if \<not> isNoteEntry parsed then Inl (InvalidNoteEntry (i + 1))
               else load_loop rest (i + 1) (entries @ [as_NoteEntry parsed]))"

definition loadEntries :: "fs \<Rightarrow> thrown + NoteEntry list" where
  "loadEntries s =
     (case fs_readFile s of
        Inl error \<Rightarrow> if code error = ''ENOENT'' then Inr [] else Inl (IOFailure error)
      | Inr txt \<Rightarrow> load_loop (split_lines txt) 0 [])"

text \<open>
  \<open>appendEntry\<close> awaits \<open>ensureStoreDir\<close> and then \<open>fs.appendFile\<close>; an error of
  the first is thrown before anything is written.
\<close>

definition appendEntry :: "fs \<Rightarrow> NoteEntry \<Rightarrow> thrown option \<times> fs" where
  "appendEntry s entry =
     (case ensureStoreDir s of
        (Some e, s') \<Rightarrow> (Some (IOFailure e), s')
      | (None, s') \<Rightarrow>
          (case fs_appendFile s' (JSON_stringify entry @ [LF]) of
             (Some e, s'') \<Rightarrow> (Some (IOFailure e), s'')
           | (None, s'') \<Rightarrow> (None, s'')))"

text \<open>Calls of \<open>appendEntry\<close> one after the other; the first that throws ends them.\<close>

fun append_all :: "fs \<Rightarrow> NoteEntry list \<Rightarrow> thrown option \<times> fs" where
  "append_all s [] = (None, s)"
| "append_all s (entry # entries) =
     (case appendEntry s entry of
        (Some e, s') \<Rightarrow> (Some e, s')
      | (None, s') \<Rightarrow> append_all s' entries)"

section \<open>Tools\<close>

text \<open>
  The object a tool handler returns: its flag \<open>isError\<close> (absent in the source is
  \<open>False\<close> here) and the text of its single content item. A handler takes the store and
  returns it; \<open>Inl\<close> is the error a handler throws.
\<close>

record tool_result =
  isError :: bool
  content_text :: jsstring

definition refusal :: tool_result where
  "refusal = \<lparr> isError = True,
     content_text = lit ''Refusing to store unapproved text. Ask the user to confirm verbatim text before storing.'' \<rparr>"

definition ok_text :: "jsstring \<Rightarrow> tool_result" where
  "ok_text t = \<lparr> isError = False, content_text = t \<rparr>"

definition notes_store ::
  "env \<Rightarrow> fs \<Rightarrow> jsstring \<Rightarrow> bool \<Rightarrow> jsstring option \<Rightarrow> jsstring option \<Rightarrow> jsstring option
    \<Rightarrow> (thrown + tool_result) \<times> fs" where
  "notes_store ev s txt approved file_arg timestamp_arg kind_arg =
     (if \<not> approved then (Inr refusal, s)
      else
        let entry = makeEntry ev txt file_arg timestamp_arg kind_arg
        in case appendEntry s entry of
             (Some e, s') \<Rightarrow> (Inl e, s')
           | (None, s') \<Rightarrow> (Inr (ok_text (lit ''Stored note '' @ entry_id entry @ lit ''.'')), s'))"

definition notes_list :: "fs \<Rightarrow> (thrown + tool_result) \<times> fs" where
  "notes_list s =
     (case loadEntries s of
        Inl e \<Rightarrow> (Inl e, s)
      | Inr entries \<Rightarrow> (Inr (ok_text (formatEntries entries (lit ''No notes stored.''))), s))"

definition kind_matches :: "NoteEntry list \<Rightarrow> jsstring \<Rightarrow> NoteEntry list" where
  "kind_matches entries k = filter (\<lambda>entry. kind entry = Some k) entries"

definition notes_list_kind :: "fs \<Rightarrow> jsstring \<Rightarrow> (thrown + tool_result) \<times> fs" where
  "notes_list_kind s k =
     (case loadEntries s of
        Inl e \<Rightarrow> (Inl e, s)
      | Inr entries \<Rightarrow>
          (Inr (ok_text (formatEntries (kind_matches entries k)
                  (lit ''No notes found for kind '' @ k @ lit ''.''))), s))"

definition notes_get :: "fs \<Rightarrow> jsstring \<Rightarrow> (thrown + tool_result) \<times> fs" where
  "notes_get s ident =
     (case loadEntries s of
        Inl e \<Rightarrow> (Inl e, s)
      | Inr entries \<Rightarrow>
          (case find (\<lambda>item. entry_id item = ident) entries of
             None \<Rightarrow>
               (Inr \<lparr> isError = True,
                       content_text = lit ''No note found for id '' @ ident @ lit ''.'' \<rparr>, s)
           | Some entry \<Rightarrow> (Inr (ok_text (formatEntry entry)), s)))"

definition contains_matches :: "NoteEntry list \<Rightarrow> jsstring \<Rightarrow> NoteEntry list" where
  "contains_matches entries needle =
     filter (\<lambda>entry. String_includes (entry_text entry) needle) entries"

definition notes_find :: "fs \<Rightarrow> jsstring \<Rightarrow> (thrown + tool_result) \<times> fs" where
  "notes_find s needle =
     (case loadEntries s of
        Inl e \<Rightarrow> (Inl e, s)
      | Inr entries \<Rightarrow>
          (Inr (ok_text (formatEntries (contains_matches entries needle)
                  (lit ''No notes matched the exact substring.''))), s))"

definition teach_request ::
  "env \<Rightarrow> fs \<Rightarrow> jsstring \<Rightarrow> bool \<Rightarrow> jsstring option \<Rightarrow> jsstring option
    \<Rightarrow> (thrown + tool_result) \<times> fs" where
  "teach_request ev s question approved file_arg timestamp_arg =
     (if \<not> approved then (Inr refusal, s)
      else
        let entry = makeEntry ev question file_arg timestamp_arg (Some (lit ''teach.request''))
        in case appendEntry s entry of
             (Some e, s') \<Rightarrow> (Inl e, s')
           | (None, s') \<Rightarrow> (Inr (ok_text (formatEntry entry)), s'))"

definition teach_note ::
  "env \<Rightarrow> fs \<Rightarrow> jsstring \<Rightarrow> bool \<Rightarrow> jsstring option \<Rightarrow> jsstring option
    \<Rightarrow> (thrown + tool_result) \<times> fs" where
  "teach_note ev s txt approved file_arg timestamp_arg =
     (if \<not> approved then (Inr refusal, s)
      else
        let entry = makeEntry ev txt file_arg timestamp_arg (Some (lit ''teach.note''))
        in case appendEntry s entry of
             (Some e, s') \<Rightarrow> (Inl e, s')
           | (None, s') \<Rightarrow> (Inr (ok_text (formatEntry entry)), s'))"

definition questions_ask :: "fs \<Rightarrow> jsstring \<Rightarrow> (thrown + tool_result) \<times> fs" where
  "questions_ask s question = (Inr (ok_text question), s)"

definition teach_ask :: "fs \<Rightarrow> jsstring \<Rightarrow> (thrown + tool_result) \<times> fs" where
  "teach_ask s question = (Inr (ok_text question), s)"

section \<open>Auxiliary notions\<close>

text \<open>
  The members \<open>JSON.stringify\<close> writes for an entry, as names and values, and the
  members of the object \<open>JSON.parse\<close> builds from them.
\<close>

definition entry_members :: "NoteEntry \<Rightarrow> (string \<times> jsstring) list" where
  "entry_members e =
     [(''id'', entry_id e), (''timestamp'', timestamp e), (''text'', entry_text e)]
     @ (case entry_file e of None \<Rightarrow> [] | Some f \<Rightarrow> [(''file'', f)])
     @ (case kind e of None \<Rightarrow> [] | Some k \<Rightarrow> [(''kind'', k)])"

fun member_pairs :: "(string \<times> jsstring) list \<Rightarrow> (jsstring \<times> json) list" where
  "member_pairs [] = []"
| "member_pairs ((k, v) # kvs) = (lit k, JString v) # member_pairs kvs"

text \<open>
  Code units that are not surrogates, and code units that are not control characters.
\<close>

definition plain :: "jschar \<Rightarrow> bool" where
  "plain c = (\<not> isLeadingSurrogate c \<and> \<not> isTrailingSurrogate c)"

definition visible :: "jschar \<Rightarrow> bool" where
  "visible c = (0x20 \<le> c)"

text \<open>
  A line decodes when \<open>JSON.parse\<close> accepts it and \<open>isNoteEntry\<close> accepts the
  value. A failing line is a line that is not empty and does not decode; \<open>line_error\<close>
  is what the loop throws at such a line with index \<open>i\<close>.
\<close>

definition decodes :: "jsstring \<Rightarrow> bool" where
  "decodes line = (case JSON_parse line of None \<Rightarrow> False | Some parsed \<Rightarrow> isNoteEntry parsed)"

definition failing :: "jsstring \<Rightarrow> bool" where
  "failing line = (line \<noteq> [] \<and> \<not> decodes line)"

definition line_error :: "nat \<Rightarrow> jsstring \<Rightarrow> thrown" where
  "line_error i line =
     (case JSON_parse line of
        None \<Rightarrow> InvalidStoreFormat (i + 1)
      | Some parsed \<Rightarrow> InvalidNoteEntry (i + 1))"

text \<open>An entry and a file of two lines, the second of them not JSON, for the examples.\<close>

definition sample_entry :: NoteEntry where
  "sample_entry = \<lparr> entry_id = lit ''a'', timestamp = lit ''t'', entry_text = lit ''x'',
     entry_file = None, kind = None \<rparr>"

definition sample_text :: jsstring where
  "sample_text = JSON_stringify sample_entry @ [LF] @ lit ''oops'' @ [LF]"

text \<open>
  The rendering the specification describes for \<open>formatOne\<close>: a kind line whenever the
  kind is present and a file line whenever the file is present.
\<close>

definition formatOne_spec :: "NoteEntry \<Rightarrow> jsstring" where
  "formatOne_spec entry =
     join [LF]
       ([lit ''id: '' @ entry_id entry, lit ''timestamp: '' @ timestamp entry]
        @ (case kind entry of None \<Rightarrow> [] | Some k \<Rightarrow> [lit ''kind: '' @ k])
        @ (case entry_file entry of None \<Rightarrow> [] | Some f \<Rightarrow> [lit ''file: '' @ f])
        @ [lit ''text:'', entry_text entry])"

text \<open>The number of lines of a text: one more than its line feeds.\<close>

definition line_count :: "jsstring \<Rightarrow> nat" where
  "line_count s = Suc (count_list s LF)"

text \<open>An entry whose kind is present and empty, as \<open>notes.store\<close> makes it from \<open>kind: ""\<close>.\<close>

definition empty_kind_entry :: NoteEntry where
  "empty_kind_entry = \<lparr> entry_id = lit ''a'', timestamp = lit ''t'', entry_text = lit ''x'',
     entry_file = None, kind = Some [] \<rparr>"

text \<open>Values of \<open>crypto.randomUUID()\<close> and of the clock, for the examples.\<close>

definition sample_env :: env where
  "sample_env = \<lparr> randomUUID = lit ''a'', now_ISO = lit ''t'' \<rparr>"

text \<open>The store after one approved append of \<open>sample_entry\<close>.\<close>

definition sample_store :: fs where
  "sample_store = \<lparr> dir_exists = True, store_file = Content (JSON_stringify sample_entry @ [LF]),
     mkdir_fault = None, append_fault = None \<rparr>"

text \<open>A store with no directory and no file yet, on a platform that accepts the writes.\<close>

definition empty_store :: fs where
  "empty_store = \<lparr> dir_exists = False, store_file = Absent, mkdir_fault = None, append_fault = None \<rparr>"

text \<open>
  A platform for the examples: the home directory \<open>/home/u\<close>, the working directory
  \<open>/work\<close>, and \<open>path.join\<close> and \<open>path.resolve\<close> as they act on relative paths
  without \<open>.\<close>, \<open>..\<close> or repeated separators.
\<close>

definition sample_platform :: platform where
  "sample_platform =
     \<lparr> homedir = lit ''/home/u'',
       path_join = join (lit ''/''),
       path_resolve = (\<lambda>v. lit ''/work/'' @ v) \<rparr>"

section \<open>The echo tools\<close>

text \<open>
  C8. For every string and every state of the store, \<open>questions.ask\<close> and \<open>teach.ask\<close>
  return a result that is not flagged as an error and whose text is exactly that string,
  and they leave the store as it was.
\<close>

theorem echo_identity:
  "questions_ask s q = (Inr \<lparr> isError = False, content_text = q \<rparr>, s)
   \<and> teach_ask s q = (Inr \<lparr> isError = False, content_text = q \<rparr>, s)"
  by (simp add: questions_ask_def teach_ask_def ok_text_def)

section \<open>The approval gate\<close>

text \<open>
  C1. Each of the three writing tools, called with \<open>approved\<close> false, returns the refusal
  with its fixed message and the store exactly as it was, whatever its other arguments
  and whatever the state of the store.
\<close>

theorem unapproved_write_refused:
  "notes_store ev s txt False file_arg timestamp_arg kind_arg = (Inr refusal, s)
   \<and> teach_request ev s q False file_arg timestamp_arg = (Inr refusal, s)
   \<and> teach_note ev s txt False file_arg timestamp_arg = (Inr refusal, s)
   \<and> isError refusal
   \<and> content_text refusal =
       lit ''Refusing to store unapproved text. Ask the user to confirm verbatim text before storing.''"
  by (simp add: notes_store_def teach_request_def teach_note_def refusal_def)

section \<open>The parser consumes its input\<close>

text \<open>
  Whatever a parsing function accepts, it leaves less text than it was given.
\<close>

lemma skip_ws_length: "length (skip_ws s) \<le> length s"
  by (induction s) auto

lemma parse_string_chars_shorter:
  "parse_string_chars s = Some (str, r) \<Longrightarrow> length r < length s"
proof (induction s arbitrary: str r rule: length_induct)
  case (1 s)
  note ih = "1.IH" [rule_format]
  show ?case
  proof (cases s)
    case Nil
    with "1.prems" show ?thesis by simp
  next
    case (Cons c cs)
    note s = Cons
    show ?thesis
    proof (cases "c = QUOTE")
      case True
      with s "1.prems" show ?thesis by simp
    next
      case nq: False
      show ?thesis
      proof (cases "c = BACKSLASH")
        case bs: True
        show ?thesis
        proof (cases cs)
          case Nil
          with s bs nq "1.prems" show ?thesis by simp
        next
          case (Cons e es)
          note cs = Cons
          show ?thesis
          proof (cases "e = 0x75")
            case u: True
            from "1.prems" s bs nq cs u obtain h1 h2 h3 h4 t uu str' where
              es: "es = h1 # h2 # h3 # h4 # t" and
              p: "parse_string_chars t = Some (str', r)"
              by (auto split: list.splits option.splits)
            have "length t < length s" using s cs es by simp
            from ih [OF this p] show ?thesis using s cs es by simp
          next
            case nu: False
            from "1.prems" s bs nq cs nu obtain str' where
              p: "parse_string_chars es = Some (str', r)"
              by (auto split: option.splits)
            have "length es < length s" using s cs by simp
            from ih [OF this p] show ?thesis using s cs by simp
          qed
        qed
      next
        case nb: False
        from "1.prems" s nq nb obtain str' where
          p: "parse_string_chars cs = Some (str', r)"
          by (auto split: option.splits if_splits)
        have "length cs < length s" using s by simp
        from ih [OF this p] show ?thesis using s by simp
      qed
    qed
  qed
qed

lemma take_digits_length: "take_digits s = (ds, r) \<Longrightarrow> length r \<le> length s"
proof (induction s arbitrary: ds r)
  case Nil
  then show ?case by simp
next
  case (Cons c cs)
  show ?case
  proof (cases "is_digit c")
    case True
    obtain ds' r' where t: "take_digits cs = (ds', r')" by (cases "take_digits cs")
    with Cons.prems True have "r = r'" by simp
    with Cons.IH [OF t] show ?thesis by simp
  next
    case False
    with Cons.prems show ?thesis by simp
  qed
qed

lemma parse_int_part_shorter: "parse_int_part s = Some (ip, r) \<Longrightarrow> length r < length s"
proof (cases s)
  case Nil
  assume "parse_int_part s = Some (ip, r)"
  with Nil show ?thesis by (simp add: parse_int_part_def)
next
  case (Cons c cs)
  assume a: "parse_int_part s = Some (ip, r)"
  obtain ds' r' where t: "take_digits cs = (ds', r')" by (cases "take_digits cs")
  from a Cons t have "r = cs \<or> r = r'"
    by (auto simp add: parse_int_part_def split: if_splits)
  with take_digits_length [OF t] Cons show ?thesis by auto
qed

lemma parse_frac_part_length: "parse_frac_part s = Some (fp, r) \<Longrightarrow> length r \<le> length s"
proof (cases s)
  case Nil
  assume "parse_frac_part s = Some (fp, r)"
  with Nil show ?thesis by (simp add: parse_frac_part_def)
next
  case (Cons c cs)
  assume a: "parse_frac_part s = Some (fp, r)"
  obtain ds' r' where t: "take_digits cs = (ds', r')" by (cases "take_digits cs")
  from a Cons t have "r = s \<or> r = r'"
    by (auto simp add: parse_frac_part_def split: if_splits)
  with take_digits_length [OF t] Cons show ?thesis by auto
qed

lemma parse_exp_part_length: "parse_exp_part s = Some (ep, r) \<Longrightarrow> length r \<le> length s"
proof (cases s)
  case Nil
  assume "parse_exp_part s = Some (ep, r)"
  with Nil show ?thesis by (simp add: parse_exp_part_def)
next
  case (Cons c cs)
  note s = Cons
  assume a: "parse_exp_part s = Some (ep, r)"
  show ?thesis
  proof (cases "c = 0x65 \<or> c = 0x45")
    case False
    with a s show ?thesis by (simp add: parse_exp_part_def)
  next
    case e: True
    show ?thesis
    proof (cases cs)
      case Nil
      with a s e show ?thesis by (simp add: parse_exp_part_def)
    next
      case (Cons g gs)
      obtain ds1 r1 where t1: "take_digits gs = (ds1, r1)" by (cases "take_digits gs")
      obtain ds2 r2 where t2: "take_digits cs = (ds2, r2)" by (cases "take_digits cs")
      from a s e Cons t1 t2 have "r = r1 \<or> r = r2"
        by (auto simp add: parse_exp_part_def split: if_splits)
      with take_digits_length [OF t1] take_digits_length [OF t2] s Cons show ?thesis by auto
    qed
  qed
qed

lemma parse_number_shorter: "parse_number s = Some (n, r) \<Longrightarrow> length r < length s"
proof -
  assume a: "parse_number s = Some (n, r)"
  obtain sign s1 where sg:
    "(case s of c # cs \<Rightarrow> if c = 0x2D then ([c], cs) else ([], s) | [] \<Rightarrow> ([], s)) = (sign, s1)"
    by (cases "case s of c # cs \<Rightarrow> if c = 0x2D then ([c], cs) else ([], s) | [] \<Rightarrow> ([], s)")
  then have l1: "length s1 \<le> length s" by (auto split: list.splits if_splits)
  from a sg obtain ip s2 fp s3 ep where
    i: "parse_int_part s1 = Some (ip, s2)" and
    f: "parse_frac_part s2 = Some (fp, s3)" and
    e: "parse_exp_part s3 = Some (ep, r)"
    by (auto simp add: parse_number_def split: option.splits)
  from parse_int_part_shorter [OF i] parse_frac_part_length [OF f] parse_exp_part_length [OF e] l1
  show ?thesis by simp
qed

lemma startsWith_length: "startsWith s q \<Longrightarrow> length q \<le> length s"
  by (induction s q rule: startsWith.induct) auto

lemma parse_literal_shorter: "parse_literal s = Some (v, r) \<Longrightarrow> length r < length s"
proof -
  assume a: "parse_literal s = Some (v, r)"
  have l: "length (lit ''true'') = 4" "length (lit ''false'') = 5" "length (lit ''null'') = 4"
    by (simp_all add: lit_def)
  from a have "(startsWith s (lit ''true'') \<and> r = drop 4 s)
      \<or> (startsWith s (lit ''false'') \<and> r = drop 5 s)
      \<or> (startsWith s (lit ''null'') \<and> r = drop 4 s)"
    by (auto simp add: parse_literal_def split: if_splits)
  then show ?thesis
    using startsWith_length [of s "lit ''true''"] startsWith_length [of s "lit ''false''"]
      startsWith_length [of s "lit ''null''"] l
    by auto
qed

lemma parse_scalar_shorter: "parse_scalar s = Some (v, r) \<Longrightarrow> length r < length s"
proof (cases s)
  case Nil
  assume "parse_scalar s = Some (v, r)"
  with Nil show ?thesis by (simp add: parse_scalar_def)
next
  case (Cons c cs)
  assume a: "parse_scalar s = Some (v, r)"
  show ?thesis
  proof (cases "c = QUOTE")
    case True
    with a Cons obtain str where "parse_string_chars cs = Some (str, r)"
      by (auto simp add: parse_scalar_def split: option.splits)
    from parse_string_chars_shorter [OF this] Cons show ?thesis by simp
  next
    case nq: False
    show ?thesis
    proof (cases "c = 0x2D \<or> is_digit c")
      case True
      with a Cons nq obtain n where "parse_number s = Some (n, r)"
        by (auto simp add: parse_scalar_def split: option.splits)
      from parse_number_shorter [OF this] show ?thesis .
    next
      case False
      with a Cons nq have "parse_literal s = Some (v, r)"
        by (auto simp add: parse_scalar_def)
      from parse_literal_shorter [OF this] show ?thesis .
    qed
  qed
qed


lemma parse_shorter:
  "(\<forall>v r. parse_value s = Some (v, r) \<longrightarrow> length r < length s)
   \<and> (\<forall>vs r. parse_elements s = Some (vs, r) \<longrightarrow> length r < length s)
   \<and> (\<forall>ms r. parse_members s = Some (ms, r) \<longrightarrow> length r < length s)"
proof (induction s rule: length_induct)
  case (1 s)
  have ihQ: "\<And>t vs r. length t < length s \<Longrightarrow> parse_elements t = Some (vs, r) \<Longrightarrow> length r < length t"
    using "1.IH" by blast
  have ihR: "\<And>t ms r. length t < length s \<Longrightarrow> parse_members t = Some (ms, r) \<Longrightarrow> length r < length t"
    using "1.IH" by blast
  have ihP: "\<And>t v r. length t < length s \<Longrightarrow> parse_value t = Some (v, r) \<Longrightarrow> length r < length t"
    using "1.IH" by blast
  have P: "length r < length s" if pv: "parse_value s = Some (v, r)" for v r
  proof (cases "skip_ws s")
    case Nil
    with pv show ?thesis by (simp add: parse_value.simps [of s])
  next
    case (Cons c cs)
    note sk = Cons
    have lcs: "length cs < length s" using skip_ws_length [of s] sk by simp
    show ?thesis
    proof (cases "c = 0x5B \<or> c = 0x7B")
      case False
      with pv sk have "parse_scalar (c # cs) = Some (v, r)"
        by (simp add: parse_value.simps [of s])
      from parse_scalar_shorter [OF this] skip_ws_length [of s] sk show ?thesis by simp
    next
      case br: True
      show ?thesis
      proof (cases "skip_ws cs")
        case Nil
        with pv sk br show ?thesis by (auto simp add: parse_value.simps [of s])
      next
        case (Cons d ds)
        have ld: "length (d # ds) < length s"
          using skip_ws_length [of cs] Cons lcs by simp
        show ?thesis
        proof (cases "c = 0x5B")
          case True
          show ?thesis
          proof (cases "d = 0x5D")
            case True
            with pv sk Cons \<open>c = 0x5B\<close> have "r = ds" by (simp add: parse_value.simps [of s])
            with ld show ?thesis by simp
          next
            case False
            with pv sk Cons \<open>c = 0x5B\<close> obtain vs where "parse_elements (d # ds) = Some (vs, r)"
              by (auto simp add: parse_value.simps [of s] split: option.splits)
            from ihQ [OF ld this] ld show ?thesis by simp
          qed
        next
          case False
          with br have c: "c = 0x7B" "c \<noteq> 0x5B" by simp_all
          show ?thesis
          proof (cases "d = 0x7D")
            case True
            with pv sk Cons c have "r = ds" by (simp add: parse_value.simps [of s])
            with ld show ?thesis by simp
          next
            case False
            with pv sk Cons c obtain ms where "parse_members (d # ds) = Some (ms, r)"
              by (auto simp add: parse_value.simps [of s] split: option.splits)
            from ihR [OF ld this] ld show ?thesis by simp
          qed
        qed
      qed
    qed
  qed
  have Q: "length r < length s" if pe: "parse_elements s = Some (vs, r)" for vs r
  proof -
    from pe obtain v r1 where pv: "parse_value s = Some (v, r1)"
      by (auto simp add: parse_elements.simps [of s] split: option.splits)
    from P [OF pv] have l1: "length r1 < length s" .
    from pe pv obtain c cs where sk: "skip_ws r1 = c # cs"
      by (auto simp add: parse_elements.simps [of s] split: list.splits)
    have lcs: "length cs < length s" using skip_ws_length [of r1] sk l1 by simp
    show ?thesis
    proof (cases "c = 0x5D")
      case True
      with pe pv sk have "r = cs" by (simp add: parse_elements.simps [of s])
      with lcs show ?thesis by simp
    next
      case False
      with pe pv sk obtain vs' where "parse_elements cs = Some (vs', r)"
        by (auto simp add: parse_elements.simps [of s] split: option.splits if_splits)
      from ihQ [OF lcs this] lcs show ?thesis by simp
    qed
  qed
  have R: "length r < length s" if pm: "parse_members s = Some (ms, r)" for ms r
  proof -
    from pm obtain q qs where sk: "skip_ws s = q # qs"
      by (auto simp add: parse_members.simps [of s] split: list.splits)
    from pm sk have q: "q = QUOTE"
      by (auto simp add: parse_members.simps [of s] split: if_splits)
    from pm sk q obtain k r1 where ps: "parse_string_chars qs = Some (k, r1)"
      by (auto simp add: parse_members.simps [of s] split: option.splits)
    from pm sk q ps obtain c cs where sk1: "skip_ws r1 = c # cs"
      by (auto simp add: parse_members.simps [of s] split: list.splits)
    from pm sk q ps sk1 have c: "c = 0x3A" and lcs: "length cs < length s"
      by (auto simp add: parse_members.simps [of s] split: if_splits)
    from pm sk q ps sk1 c lcs obtain v r2 where pv: "parse_value cs = Some (v, r2)"
      by (auto simp add: parse_members.simps [of s] split: option.splits)
    from ihP [OF lcs pv] have l2: "length r2 < length cs" .
    from pm sk q ps sk1 c lcs pv obtain e es where sk2: "skip_ws r2 = e # es"
      by (auto simp add: parse_members.simps [of s] split: list.splits)
    have les: "length es < length s" using skip_ws_length [of r2] sk2 l2 lcs by simp
    show ?thesis
    proof (cases "e = 0x7D")
      case True
      with pm sk q ps sk1 c lcs pv sk2 have "r = es" by (simp add: parse_members.simps [of s])
      with les show ?thesis by simp
    next
      case False
      with pm sk q ps sk1 c lcs pv sk2 obtain ms' where "parse_members es = Some (ms', r)"
        by (auto simp add: parse_members.simps [of s] split: option.splits if_splits)
      from ihR [OF les this] les show ?thesis by simp
    qed
  qed
  from P Q R show ?case by blast
qed

lemma parse_value_shorter: "parse_value s = Some (v, r) \<Longrightarrow> length r < length s"
  using parse_shorter [of s] by blast

text \<open>
  So the two tests of the length in \<open>parse_elements\<close> and \<open>parse_members\<close> always
  succeed, and the functions satisfy the equations of the grammar without them.
\<close>

lemma parse_elements_unguarded:
  "parse_elements s =
     (case parse_value s of
        None \<Rightarrow> None
      | Some (v, r) \<Rightarrow>
          (case skip_ws r of
             [] \<Rightarrow> None
           | c # cs \<Rightarrow>
               if c = 0x5D then Some ([v], cs)
               else if c = 0x2C then
                 (case parse_elements cs of
                    None \<Rightarrow> None
                  | Some (vs, r') \<Rightarrow> Some (v # vs, r'))
               else None))"
proof (cases "parse_value s")
  case None
  then show ?thesis by (simp add: parse_elements.simps [of s])
next
  case (Some a)
  obtain v r where a: "a = (v, r)" by (cases a)
  from parse_value_shorter [of s v r] Some a have l: "length r < length s" by simp
  show ?thesis
  proof (cases "skip_ws r")
    case Nil
    with Some a show ?thesis by (simp add: parse_elements.simps [of s])
  next
    case (Cons c cs)
    then have "length cs < length s" using skip_ws_length [of r] l by simp
    with Some a Cons show ?thesis by (simp add: parse_elements.simps [of s])
  qed
qed

lemma parse_members_unguarded:
  "parse_members s =
     (case skip_ws s of
        [] \<Rightarrow> None
      | q # qs \<Rightarrow>
          if q \<noteq> QUOTE then None
          else
            (case parse_string_chars qs of
               None \<Rightarrow> None
             | Some (k, r1) \<Rightarrow>
                 (case skip_ws r1 of
                    [] \<Rightarrow> None
                  | c # cs \<Rightarrow>
                      if c = 0x3A then
                        (case parse_value cs of
                           None \<Rightarrow> None
                         | Some (v, r2) \<Rightarrow>
                             (case skip_ws r2 of
                                [] \<Rightarrow> None
                              | e # es \<Rightarrow>
                                  if e = 0x7D then Some ([(k, v)], es)
                                  else if e = 0x2C then
                                    (case parse_members es of
                                       None \<Rightarrow> None
                                     | Some (ms, r3) \<Rightarrow> Some ((k, v) # ms, r3))
                                  else None))
                      else None)))"
proof (cases "skip_ws s")
  case Nil
  then show ?thesis by (simp add: parse_members.simps [of s])
next
  case (Cons q qs)
  note sk = Cons
  have lqs: "length qs < length s" using skip_ws_length [of s] sk by simp
  show ?thesis
  proof (cases "parse_string_chars qs")
    case None
    with sk show ?thesis by (simp add: parse_members.simps [of s])
  next
    case (Some a)
    obtain k r1 where a: "a = (k, r1)" by (cases a)
    from parse_string_chars_shorter [of qs k r1] Some a have l1: "length r1 < length qs" by simp
    show ?thesis
    proof (cases "skip_ws r1")
      case Nil
      with sk Some a show ?thesis by (simp add: parse_members.simps [of s])
    next
      case (Cons c cs)
      note sk1 = Cons
      have lcs: "length cs < length s" using skip_ws_length [of r1] sk1 l1 lqs by simp
      show ?thesis
      proof (cases "parse_value cs")
        case None
        with sk Some a sk1 lcs show ?thesis by (simp add: parse_members.simps [of s])
      next
        case pv: (Some b)
        obtain v r2 where b: "b = (v, r2)" by (cases b)
        from parse_value_shorter [of cs v r2] pv b have l2: "length r2 < length cs" by simp
        show ?thesis
        proof (cases "skip_ws r2")
          case Nil
          with sk Some a sk1 lcs pv b show ?thesis by (simp add: parse_members.simps [of s])
        next
          case (Cons e es)
          then have "length es < length s" using skip_ws_length [of r2] l2 lcs by simp
          with sk Some a sk1 lcs pv b Cons show ?thesis
            by (simp add: parse_members.simps [of s])
        qed
      qed
    qed
  qed
qed

section \<open>Encoding and decoding\<close>

subsection \<open>Strings\<close>

lemma unat_of_nat16: "k < 65536 \<Longrightarrow> unat (of_nat k :: jschar) = k"
  by (simp add: unat_of_nat)

lemma unat_hex_digit: "d < 16 \<Longrightarrow> unat (hex_digit d) = (if d < 10 then 48 + d else 87 + d)"
  unfolding hex_digit_def by (simp add: unat_of_nat16 del: of_nat_add of_nat_numeral)

lemma hex_value_digit: "d < 16 \<Longrightarrow> hex_value (hex_digit d) = Some d"
  by (simp add: hex_value_def unat_hex_digit Let_def)

lemma hex_split:
  fixes n :: nat
  shows "4096 * (n div 4096) + 256 * (n div 256 mod 16) + 16 * (n div 16 mod 16) + n mod 16 = n"
proof -
  have a: "n mod 256 = 16 * (n div 16 mod 16) + n mod 16"
    using mod_mult2_eq [of n 16 16] by simp
  have b: "n mod 4096 = 256 * (n div 256 mod 16) + n mod 256"
    using mod_mult2_eq [of n 256 16] by simp
  have c: "n = 4096 * (n div 4096) + n mod 4096"
    by simp
  from a b c show ?thesis by linarith
qed

lemma unat_jschar_bound: "unat (c :: jschar) < 65536"
  using unsigned_less [of c] by simp

lemma hex4_escape:
  "hex4 (hex_digit (unat c div 4096)) (hex_digit (unat c div 256 mod 16))
        (hex_digit (unat c div 16 mod 16)) (hex_digit (unat c mod 16)) = Some (c :: jschar)"
proof -
  have d1: "unat c div 4096 < 16"
    using unat_jschar_bound [of c] by (simp add: less_mult_imp_div_less)
  show ?thesis
    by (simp add: hex4_def hex_value_digit d1 hex_split)
qed

lemma parse_UnicodeEscape:
  "parse_string_chars (UnicodeEscape c @ r) =
     (case parse_string_chars r of None \<Rightarrow> None | Some (s, rest) \<Rightarrow> Some (c # s, rest))"
  by (simp add: UnicodeEscape_def Let_def hex4_escape)

lemma parse_escape_unit:
  "parse_string_chars (escape_unit c @ r) =
     (case parse_string_chars r of None \<Rightarrow> None | Some (s, rest) \<Rightarrow> Some (c # s, rest))"
proof (cases "c < 0x20 \<or> isLeadingSurrogate c \<or> isTrailingSurrogate c")
  case True
  then show ?thesis
    by (auto simp add: escape_unit_def parse_UnicodeEscape unescape_def)
next
  case False
  then show ?thesis
    by (auto simp add: escape_unit_def unescape_def)
qed

lemma surrogate_plain:
  "isLeadingSurrogate c \<or> isTrailingSurrogate c \<Longrightarrow> \<not> c < 0x20 \<and> c \<noteq> QUOTE \<and> c \<noteq> BACKSLASH"
  unfolding isLeadingSurrogate_def isTrailingSurrogate_def
  by (auto simp: word_le_nat_alt word_less_nat_alt)

lemma parse_plain_unit:
  "\<not> c < 0x20 \<Longrightarrow> c \<noteq> QUOTE \<Longrightarrow> c \<noteq> BACKSLASH \<Longrightarrow>
   parse_string_chars (c # r) =
     (case parse_string_chars r of None \<Rightarrow> None | Some (s, rest) \<Rightarrow> Some (c # s, rest))"
  by simp

lemma quote_units_pair:
  "isLeadingSurrogate c \<and> isTrailingSurrogate d \<Longrightarrow> quote_units (c # d # cs) = c # d # quote_units cs"
  by simp

lemma quote_units_escape:
  "\<not> (isLeadingSurrogate c \<and> isTrailingSurrogate d) \<Longrightarrow>
   quote_units (c # d # cs) = escape_unit c @ quote_units (d # cs)"
  by auto

lemma parse_quote_units:
  "parse_string_chars (quote_units s @ QUOTE # rest) = Some (s, rest)"
proof (induction s rule: quote_units.induct)
  case 1
  then show ?case by simp
next
  case (2 c)
  have "parse_string_chars (escape_unit c @ QUOTE # rest) = Some ([c], rest)"
    by (simp add: parse_escape_unit)
  then show ?case by simp
next
  case (3 c d cs)
  show ?case
  proof (cases "isLeadingSurrogate c \<and> isTrailingSurrogate d")
    case True
    then have ih: "parse_string_chars (quote_units cs @ QUOTE # rest) = Some (cs, rest)"
      using "3.IH"(1) by simp
    have pc: "\<not> c < 0x20" "c \<noteq> QUOTE" "c \<noteq> BACKSLASH"
      using True surrogate_plain [of c] by simp_all
    have pd: "\<not> d < 0x20" "d \<noteq> QUOTE" "d \<noteq> BACKSLASH"
      using True surrogate_plain [of d] by simp_all
    have "parse_string_chars (c # d # quote_units cs @ QUOTE # rest) = Some (c # d # cs, rest)"
      by (simp only: parse_plain_unit [OF pc] parse_plain_unit [OF pd] ih option.case prod.case)
    moreover have "quote_units (c # d # cs) = c # d # quote_units cs"
      using True by (rule quote_units_pair)
    ultimately show ?thesis by (simp only: append_Cons)
  next
    case False
    then have ih: "parse_string_chars (quote_units (d # cs) @ QUOTE # rest) = Some (d # cs, rest)"
      using "3.IH"(2) by simp
    have "parse_string_chars (escape_unit c @ quote_units (d # cs) @ QUOTE # rest) = Some (c # d # cs, rest)"
      by (simp only: parse_escape_unit ih option.case prod.case)
    moreover have "quote_units (c # d # cs) = escape_unit c @ quote_units (d # cs)"
      using False by (rule quote_units_escape)
    ultimately show ?thesis by (simp only: append_assoc)
  qed
qed

lemma parse_value_string:
  "parse_value (QuoteJSONString v @ rest) = Some (JString v, rest)"
  by (subst parse_value.simps)
     (simp add: QuoteJSONString_def is_ws_def parse_scalar_def parse_quote_units)

lemma parse_members_last:
  "parse_members (json_member key v @ 0x7D # rest) = Some ([(lit key, JString v)], rest)"
proof -
  have a: "json_member key v @ 0x7D # rest
      = QUOTE # quote_units (lit key) @ QUOTE # 0x3A # QuoteJSONString v @ 0x7D # rest"
    by (simp add: json_member_def QuoteJSONString_def)
  show ?thesis
    unfolding a
    by (subst parse_members.simps)
       (simp add: is_ws_def parse_quote_units parse_value_string)
qed

lemma parse_members_more:
  "parse_members (json_member key v @ 0x2C # others) =
     (case parse_members others of
        None \<Rightarrow> None
      | Some (ms, r) \<Rightarrow> Some ((lit key, JString v) # ms, r))"
proof -
  have a: "json_member key v @ 0x2C # others
      = QUOTE # quote_units (lit key) @ QUOTE # 0x3A # QuoteJSONString v @ 0x2C # others"
    by (simp add: json_member_def QuoteJSONString_def)
  show ?thesis
    unfolding a
    by (subst parse_members.simps)
       (simp add: is_ws_def parse_quote_units parse_value_string)
qed


lemma parse_members_join:
  "kvs \<noteq> [] \<Longrightarrow>
   parse_members (join [0x2C] (map (\<lambda>(k, v). json_member k v) kvs) @ 0x7D # rest)
     = Some (member_pairs kvs, rest)"
proof (induction kvs rule: induct_list012)
  case 1
  then show ?case by simp
next
  case (2 kv)
  then show ?case by (cases kv) (simp add: parse_members_last)
next
  case (3 kv kv' kvs)
  then show ?case by (cases kv) (simp add: parse_members_more)
qed

lemma json_member_head: "\<exists>t. json_member k v = QUOTE # t"
  by (simp add: json_member_def QuoteJSONString_def)

lemma parse_value_object:
  assumes "kvs \<noteq> []"
  shows "parse_value (0x7B # join [0x2C] (map (\<lambda>(k, v). json_member k v) kvs) @ 0x7D # rest)
     = Some (JObject (member_pairs kvs), rest)"
proof -
  obtain kv kvs' where kvs: "kvs = kv # kvs'" using assms by (cases kvs) auto
  obtain k v where kv: "kv = (k, v)" by (cases kv)
  obtain t where t: "json_member k v = QUOTE # t" using json_member_head by blast
  have "\<exists>u. join [0x2C] (map (\<lambda>(k, v). json_member k v) kvs) = QUOTE # u"
    unfolding kvs kv using t by (cases kvs') auto
  then obtain u where u: "join [0x2C] (map (\<lambda>(k, v). json_member k v) kvs) = QUOTE # u" ..
  have pm: "parse_members (QUOTE # u @ 0x7D # rest) = Some (member_pairs kvs, rest)"
    using parse_members_join [OF assms, of rest] unfolding u by simp
  show ?thesis
    unfolding u
    by (subst parse_value.simps) (simp add: is_ws_def pm)
qed

lemma JSON_stringify_members:
  "JSON_stringify e = 0x7B # join [0x2C] (map (\<lambda>(k, v). json_member k v) (entry_members e)) @ [0x7D]"
  by (simp add: JSON_stringify_def entry_members_def split: option.splits)

lemma JSON_parse_stringify:
  "JSON_parse (JSON_stringify e) = Some (JObject (member_pairs (entry_members e)))"
proof -
  have ne: "entry_members e \<noteq> []" by (simp add: entry_members_def)
  show ?thesis
    unfolding JSON_parse_def JSON_stringify_members parse_value_object [OF ne] by simp
qed

lemma key_lits:
  "lit ''id'' = [0x69, 0x64]"
  "lit ''timestamp'' = [0x74, 0x69, 0x6D, 0x65, 0x73, 0x74, 0x61, 0x6D, 0x70]"
  "lit ''text'' = [0x74, 0x65, 0x78, 0x74]"
  "lit ''file'' = [0x66, 0x69, 0x6C, 0x65]"
  "lit ''kind'' = [0x6B, 0x69, 0x6E, 0x64]"
  by (simp_all add: lit_def)

lemma isNoteEntry_members: "isNoteEntry (JObject (member_pairs (entry_members e)))"
  by (cases "entry_file e"; cases "kind e")
     (simp_all add: isNoteEntry_def entry_members_def key_lits)

lemma as_NoteEntry_members: "as_NoteEntry (JObject (member_pairs (entry_members e))) = e"
  by (cases "entry_file e"; cases "kind e")
     (simp_all add: as_NoteEntry_def entry_members_def key_lits)

subsection \<open>What is written to the file\<close>

lemma plain_hex_digit: "d < 16 \<Longrightarrow> plain (hex_digit d)"
  unfolding plain_def isLeadingSurrogate_def isTrailingSurrogate_def
  by (simp add: word_le_nat_alt unat_hex_digit)

lemma plain_UnicodeEscape: "list_all plain (UnicodeEscape c)"
proof -
  have d1: "unat c div 4096 < 16"
    using unat_jschar_bound [of c] by (simp add: less_mult_imp_div_less)
  have "plain BACKSLASH" "plain 0x75"
    by (simp_all add: plain_def isLeadingSurrogate_def isTrailingSurrogate_def)
  then show ?thesis
    by (simp add: UnicodeEscape_def Let_def plain_hex_digit d1)
qed

lemma plain_escape_unit: "list_all plain (escape_unit c)"
proof (cases "c < 0x20 \<or> isLeadingSurrogate c \<or> isTrailingSurrogate c")
  case True
  have "plain BACKSLASH" "plain 0x62" "plain 0x74" "plain 0x6E" "plain 0x66" "plain 0x72" "plain QUOTE"
    by (simp_all add: plain_def isLeadingSurrogate_def isTrailingSurrogate_def)
  with True show ?thesis
    by (auto simp add: escape_unit_def plain_UnicodeEscape)
next
  case False
  have "plain BACKSLASH" "plain 0x62" "plain 0x74" "plain 0x6E" "plain 0x66" "plain 0x72" "plain QUOTE"
    by (simp_all add: plain_def isLeadingSurrogate_def isTrailingSurrogate_def)
  moreover from False have "plain c" by (simp add: plain_def)
  ultimately show ?thesis
    using False by (auto simp add: escape_unit_def)
qed

lemma toWellFormed_plain: "plain c \<Longrightarrow> toWellFormed (c # s) = c # toWellFormed s"
  by (cases s) (simp_all add: plain_def)

lemma toWellFormed_plain_append:
  "list_all plain xs \<Longrightarrow> toWellFormed (xs @ s) = xs @ toWellFormed s"
  by (induction xs) (simp_all add: toWellFormed_plain)

lemma toWellFormed_quote_units:
  "toWellFormed (quote_units s @ r) = quote_units s @ toWellFormed r"
proof (induction s rule: quote_units.induct)
  case 1
  show ?case by simp
next
  case (2 c)
  show ?case by (simp add: toWellFormed_plain_append plain_escape_unit)
next
  case (3 c d cs)
  show ?case
  proof (cases "isLeadingSurrogate c \<and> isTrailingSurrogate d")
    case True
    with 3 show ?thesis by simp
  next
    case False
    then have "quote_units (c # d # cs) = escape_unit c @ quote_units (d # cs)"
      by (rule quote_units_escape)
    moreover have "toWellFormed (quote_units (d # cs) @ r) = quote_units (d # cs) @ toWellFormed r"
      using False "3.IH"(2) by simp
    ultimately show ?thesis
      by (simp only: append_assoc toWellFormed_plain_append [OF plain_escape_unit])
  qed
qed

lemma plain_punct: "plain QUOTE" "plain 0x3A" "plain 0x2C" "plain 0x7B" "plain 0x7D" "plain LF"
  by (simp_all add: plain_def isLeadingSurrogate_def isTrailingSurrogate_def)

lemma toWellFormed_QuoteJSONString:
  "toWellFormed (QuoteJSONString v @ r) = QuoteJSONString v @ toWellFormed r"
  by (simp add: QuoteJSONString_def toWellFormed_plain toWellFormed_quote_units plain_punct)

lemma toWellFormed_json_member:
  "toWellFormed (json_member k v @ r) = json_member k v @ toWellFormed r"
  by (simp add: json_member_def toWellFormed_QuoteJSONString toWellFormed_plain plain_punct)

lemma toWellFormed_join_members:
  "toWellFormed (join [0x2C] (map (\<lambda>(k, v). json_member k v) kvs) @ r)
     = join [0x2C] (map (\<lambda>(k, v). json_member k v) kvs) @ toWellFormed r"
proof (induction kvs rule: induct_list012)
  case 1
  show ?case by simp
next
  case (2 kv)
  show ?case by (cases kv) (simp add: toWellFormed_json_member)
next
  case (3 kv kv' kvs)
  then show ?case
    by (cases kv) (simp add: toWellFormed_json_member toWellFormed_plain plain_punct)
qed

lemma toWellFormed_line:
  "toWellFormed (JSON_stringify e @ [LF]) = JSON_stringify e @ [LF]"
proof -
  have "toWellFormed [0x7D, LF] = [0x7D, LF]"
    by (simp add: isLeadingSurrogate_def isTrailingSurrogate_def)
  then show ?thesis
    by (simp add: JSON_stringify_members toWellFormed_plain toWellFormed_join_members plain_punct
          del: toWellFormed.simps)
qed

lemma visible_hex_digit: "d < 16 \<Longrightarrow> visible (hex_digit d)"
  unfolding visible_def by (simp add: word_le_nat_alt unat_hex_digit)

lemma visible_UnicodeEscape: "list_all visible (UnicodeEscape c)"
proof -
  have d1: "unat c div 4096 < 16"
    using unat_jschar_bound [of c] by (simp add: less_mult_imp_div_less)
  show ?thesis
    by (simp add: UnicodeEscape_def Let_def visible_hex_digit d1) (simp add: visible_def)
qed

lemma visible_escape_unit: "list_all visible (escape_unit c)"
proof (cases "c < 0x20 \<or> isLeadingSurrogate c \<or> isTrailingSurrogate c")
  case True
  then show ?thesis
    by (auto simp add: escape_unit_def visible_UnicodeEscape) (simp_all add: visible_def)
next
  case False
  then have "visible c" by (simp add: visible_def not_less)
  with False show ?thesis
    by (auto simp add: escape_unit_def) (simp_all add: visible_def)
qed

lemma visible_surrogate: "isLeadingSurrogate c \<or> isTrailingSurrogate c \<Longrightarrow> visible c"
  using surrogate_plain [of c] by (simp add: visible_def not_less)

lemma visible_quote_units: "list_all visible (quote_units s)"
  by (induction s rule: quote_units.induct)
     (auto simp add: visible_escape_unit visible_surrogate)

lemma visible_punct: "visible QUOTE" "visible 0x3A" "visible 0x2C" "visible 0x7B" "visible 0x7D"
  by (simp_all add: visible_def)

lemma visible_json_member: "list_all visible (json_member k v)"
  by (simp add: json_member_def QuoteJSONString_def visible_quote_units visible_punct)

lemma visible_join_members:
  "list_all visible (join [0x2C] (map (\<lambda>(k, v). json_member k v) kvs))"
  by (induction kvs rule: induct_list012)
     (auto simp add: visible_json_member visible_punct)

lemma visible_JSON_stringify: "list_all visible (JSON_stringify e)"
  by (simp add: JSON_stringify_members visible_join_members visible_punct)

lemma JSON_stringify_one_line: "LF \<notin> set (JSON_stringify e) \<and> CR \<notin> set (JSON_stringify e)"
proof -
  have "\<not> visible LF" "\<not> visible CR" by (simp_all add: visible_def)
  then show ?thesis
    using visible_JSON_stringify [of e] by (auto simp add: list_all_iff)
qed

lemma JSON_stringify_nonempty: "JSON_stringify e \<noteq> []"
  by (simp add: JSON_stringify_members)

lemma split_from_line:
  "LF \<notin> set l \<Longrightarrow> CR \<notin> set l \<Longrightarrow>
   split_from cur (l @ LF # rest) = (cur @ l) # split_from [] rest"
proof (induction l arbitrary: cur)
  case Nil
  show ?case by (cases rest) simp_all
next
  case (Cons c l)
  then have c: "c \<noteq> LF" "c \<noteq> CR" by auto
  obtain d ds where t: "l @ LF # rest = d # ds" by (cases "l @ LF # rest") auto
  have "split_from cur (c # d # ds) = split_from (cur @ [c]) (d # ds)"
    using c by simp
  then have "split_from cur ((c # l) @ LF # rest) = split_from (cur @ [c]) (l @ LF # rest)"
    by (simp add: t)
  also have "\<dots> = ((cur @ [c]) @ l) # split_from [] rest"
    using Cons by simp
  finally show ?case by simp
qed

lemma split_lines_encoded:
  "split_lines (concat (map (\<lambda>e. JSON_stringify e @ [LF]) es)) = map JSON_stringify es @ [[]]"
proof (induction es)
  case Nil
  show ?case by (simp add: split_lines_def)
next
  case (Cons e es)
  have "split_from [] (JSON_stringify e @ LF # concat (map (\<lambda>e. JSON_stringify e @ [LF]) es))
      = ([] @ JSON_stringify e) # split_from [] (concat (map (\<lambda>e. JSON_stringify e @ [LF]) es))"
    using JSON_stringify_one_line [of e] by (intro split_from_line) simp_all
  with Cons show ?case by (simp add: split_lines_def)
qed

lemma load_loop_encoded:
  "load_loop (map JSON_stringify es @ [[]]) i acc = Inr (acc @ es)"
  by (induction es arbitrary: i acc)
     (simp_all add: JSON_stringify_nonempty JSON_parse_stringify isNoteEntry_members as_NoteEntry_members)

lemma appendEntry_writable:
  "mkdir_fault s = None \<Longrightarrow> append_fault s = None \<Longrightarrow> store_file s = Content t \<Longrightarrow>
   appendEntry s e = (None, s \<lparr> dir_exists := True, store_file := Content (t @ JSON_stringify e @ [LF]) \<rparr>)"
  by (simp add: appendEntry_def ensureStoreDir_def fs_mkdir_def fs_appendFile_def toWellFormed_line)

lemma appendEntry_absent:
  "mkdir_fault s = None \<Longrightarrow> append_fault s = None \<Longrightarrow> store_file s = Absent \<Longrightarrow>
   appendEntry s e = (None, s \<lparr> dir_exists := True, store_file := Content (JSON_stringify e @ [LF]) \<rparr>)"
  by (simp add: appendEntry_def ensureStoreDir_def fs_mkdir_def fs_appendFile_def toWellFormed_line)

text \<open>The two ways \<open>appendEntry\<close> throws; the file is as it was.\<close>

lemma appendEntry_mkdir_fails:
  "mkdir_fault s = Some err \<Longrightarrow> appendEntry s e = (Some (IOFailure err), s)"
  by (simp add: appendEntry_def ensureStoreDir_def fs_mkdir_def)

lemma appendEntry_append_fails:
  "mkdir_fault s = None \<Longrightarrow> append_fault s = Some err \<Longrightarrow>
   appendEntry s e = (Some (IOFailure err), s \<lparr> dir_exists := True \<rparr>)"
  by (simp add: appendEntry_def ensureStoreDir_def fs_mkdir_def fs_appendFile_def)

text \<open>A call of \<open>appendEntry\<close> that does not throw met no fault.\<close>

lemma appendEntry_success_faults:
  "fst (appendEntry s e) = None \<Longrightarrow> mkdir_fault s = None \<and> append_fault s = None"
  by (cases "mkdir_fault s"; cases "append_fault s")
     (simp_all add: appendEntry_mkdir_fails appendEntry_append_fails)

lemma appendEntry_success_content:
  "fst (appendEntry s e) = None \<Longrightarrow> store_file s = Content t \<Longrightarrow>
   store_file (snd (appendEntry s e)) = Content (t @ JSON_stringify e @ [LF])"
  using appendEntry_success_faults [of s e] by (simp add: appendEntry_writable)

lemma appendEntry_success_absent:
  "fst (appendEntry s e) = None \<Longrightarrow> store_file s = Absent \<Longrightarrow>
   store_file (snd (appendEntry s e)) = Content (JSON_stringify e @ [LF])"
  using appendEntry_success_faults [of s e] by (simp add: appendEntry_absent)

lemma append_all_Cons_success:
  "fst (append_all s (e # es)) = None \<Longrightarrow>
   fst (appendEntry s e) = None \<and> append_all s (e # es) = append_all (snd (appendEntry s e)) es"
  by (cases "appendEntry s e") (auto split: option.splits)

lemma append_all_content:
  "store_file s = Content t \<Longrightarrow> fst (append_all s es) = None \<Longrightarrow>
   store_file (snd (append_all s es)) = Content (t @ concat (map (\<lambda>e. JSON_stringify e @ [LF]) es))"
proof (induction es arbitrary: s t)
  case Nil
  then show ?case by simp
next
  case (Cons e es)
  from append_all_Cons_success [OF Cons.prems(2)]
  have ok: "fst (appendEntry s e) = None"
    and step: "append_all s (e # es) = append_all (snd (appendEntry s e)) es"
    by simp_all
  have c: "store_file (snd (appendEntry s e)) = Content (t @ JSON_stringify e @ [LF])"
    using appendEntry_success_content [OF ok Cons.prems(1)] .
  have "fst (append_all (snd (appendEntry s e)) es) = None"
    using Cons.prems(2) step by simp
  from Cons.IH [OF c this] show ?case unfolding step by simp
qed

lemma append_all_absent:
  "store_file s = Absent \<Longrightarrow> es \<noteq> [] \<Longrightarrow> fst (append_all s es) = None \<Longrightarrow>
   store_file (snd (append_all s es)) = Content (concat (map (\<lambda>e. JSON_stringify e @ [LF]) es))"
proof (cases es)
  case Nil
  assume "es \<noteq> []"
  with Nil show ?thesis by simp
next
  case (Cons e es')
  assume a: "store_file s = Absent" and ok: "fst (append_all s es) = None"
  from append_all_Cons_success [of s e es'] ok Cons
  have ok1: "fst (appendEntry s e) = None"
    and step: "append_all s (e # es') = append_all (snd (appendEntry s e)) es'"
    by simp_all
  have c: "store_file (snd (appendEntry s e)) = Content (JSON_stringify e @ [LF])"
    using appendEntry_success_absent [OF ok1 a] .
  have "fst (append_all (snd (appendEntry s e)) es') = None"
    using ok Cons step by simp
  from append_all_content [OF c this] show ?thesis unfolding Cons step by simp
qed

text \<open>On a platform that accepts the writes, every call of \<open>appendEntry\<close> succeeds.\<close>

lemma appendEntry_no_fault:
  "mkdir_fault s = None \<Longrightarrow> append_fault s = None \<Longrightarrow>
   fst (appendEntry s e) = None
   \<and> mkdir_fault (snd (appendEntry s e)) = None \<and> append_fault (snd (appendEntry s e)) = None"
  by (cases "store_file s")
     (simp_all add: appendEntry_def ensureStoreDir_def fs_mkdir_def fs_appendFile_def)

lemma append_all_no_fault:
  "mkdir_fault s = None \<Longrightarrow> append_fault s = None \<Longrightarrow> fst (append_all s es) = None"
proof (induction es arbitrary: s)
  case Nil
  show ?case by simp
next
  case (Cons e es)
  from appendEntry_no_fault [OF Cons.prems, of e]
  have a: "fst (appendEntry s e) = None"
    and b: "mkdir_fault (snd (appendEntry s e)) = None" "append_fault (snd (appendEntry s e)) = None"
    by simp_all
  from Cons.IH [OF b] a show ?case
    by (cases "appendEntry s e") simp
qed

lemma loadEntries_encoded:
  "store_file s = Content (concat (map (\<lambda>e. JSON_stringify e @ [LF]) es)) \<Longrightarrow>
   loadEntries s = Inr es"
  by (simp add: loadEntries_def fs_readFile_def split_lines_encoded load_loop_encoded)

section \<open>Round trip, append and load\<close>

text \<open>
  C3. Round trip. For every entry, the text \<open>JSON.stringify\<close> writes for it is one line
  (no line feed and no carriage return), \<open>JSON.parse\<close> accepts it, \<open>isNoteEntry\<close>
  accepts the parsed value, and the value read as an entry is the entry itself: the three
  strings are equal and an optional field that was undefined is undefined again.
\<close>

theorem decode_encode_roundtrip:
  "(\<exists>v. JSON_parse (JSON_stringify e) = Some v \<and> isNoteEntry v \<and> as_NoteEntry v = e)
   \<and> LF \<notin> set (JSON_stringify e) \<and> CR \<notin> set (JSON_stringify e)
   \<and> load_loop [JSON_stringify e] i [] = Inr [e]"
proof -
  have "load_loop (map JSON_stringify [e] @ [[]]) i [] = Inr ([] @ [e])"
    by (rule load_loop_encoded)
  then have "load_loop [JSON_stringify e] i [] = Inr [e]"
    by (simp add: JSON_stringify_nonempty JSON_parse_stringify isNoteEntry_members
          as_NoteEntry_members)
  then show ?thesis
    using JSON_stringify_one_line [of e]
    by (simp add: JSON_parse_stringify isNoteEntry_members as_NoteEntry_members)
qed

text \<open>
  C2. Append only. Take a store whose file is absent and any number of calls of
  \<open>appendEntry\<close>, none of which throws. Then \<open>loadEntries\<close> returns exactly the entries
  appended, in the order of the calls. Entries appended by later calls that do not throw
  come after them. A call that does not throw on a file with any content leaves that
  content in place in front of the new line.
\<close>

theorem append_then_load:
  "(store_file s = Absent \<and> fst (append_all s es) = None \<longrightarrow>
      loadEntries (snd (append_all s es)) = Inr es)
   \<and> (store_file s = Absent \<and> fst (append_all s es) = None
        \<and> fst (append_all (snd (append_all s es)) es') = None \<longrightarrow>
      loadEntries (snd (append_all (snd (append_all s es)) es')) = Inr (es @ es'))
   \<and> (store_file s = Content t \<and> fst (appendEntry s e) = None \<longrightarrow>
      store_file (snd (appendEntry s e)) = Content (t @ JSON_stringify e @ [LF]))"
proof -
  let ?line = "\<lambda>e. JSON_stringify e @ [LF]"
  have first: "loadEntries (snd (append_all s es)) = Inr es"
    if a: "store_file s = Absent" and ok: "fst (append_all s es) = None" for es
  proof (cases es)
    case Nil
    with a show ?thesis by (simp add: loadEntries_def fs_readFile_def ENOENT_def)
  next
    case (Cons x xs)
    then have "es \<noteq> []" by simp
    from append_all_absent [OF a this ok]
    show ?thesis by (rule loadEntries_encoded)
  qed
  have second: "loadEntries (snd (append_all (snd (append_all s es)) es')) = Inr (es @ es')"
    if a: "store_file s = Absent" and ok: "fst (append_all s es) = None"
      and ok': "fst (append_all (snd (append_all s es)) es') = None"
  proof (cases es)
    case Nil
    then have "snd (append_all s es) = s" by simp
    with first [OF a, of es'] ok' Nil show ?thesis by simp
  next
    case (Cons x xs)
    then have ne: "es \<noteq> []" by simp
    have c: "store_file (snd (append_all s es)) = Content (concat (map ?line es))"
      using append_all_absent [OF a ne ok] .
    from append_all_content [OF c ok']
    have "store_file (snd (append_all (snd (append_all s es)) es'))
        = Content (concat (map ?line (es @ es')))"
      by simp
    then show ?thesis by (rule loadEntries_encoded)
  qed
  have third: "store_file (snd (appendEntry s e)) = Content (t @ JSON_stringify e @ [LF])"
    if "store_file s = Content t" and "fst (appendEntry s e) = None"
    using that appendEntry_success_content by blast
  from first second third show ?thesis by blast
qed

theorem append_then_load_witness:
  "store_file empty_store = Absent
   \<and> fst (append_all empty_store [sample_entry, empty_kind_entry]) = None
   \<and> loadEntries (snd (append_all empty_store [sample_entry, empty_kind_entry]))
       = Inr [sample_entry, empty_kind_entry]
   \<and> fst (append_all (snd (append_all empty_store [sample_entry, empty_kind_entry])) [sample_entry]) = None
   \<and> loadEntries (snd (append_all (snd (append_all empty_store [sample_entry, empty_kind_entry]))
         [sample_entry]))
       = Inr ([sample_entry, empty_kind_entry] @ [sample_entry])
   \<and> store_file sample_store = Content (JSON_stringify sample_entry @ [LF])
   \<and> fst (appendEntry sample_store empty_kind_entry) = None
   \<and> store_file (snd (appendEntry sample_store empty_kind_entry))
       = Content ((JSON_stringify sample_entry @ [LF]) @ JSON_stringify empty_kind_entry @ [LF])"
proof -
  let ?es = "[sample_entry, empty_kind_entry]"
  have a: "store_file empty_store = Absent"
    and f: "mkdir_fault empty_store = None" "append_fault empty_store = None"
    by (simp_all add: empty_store_def)
  have ok: "fst (append_all empty_store ?es) = None"
    using f by (rule append_all_no_fault)
  have f': "mkdir_fault (snd (append_all empty_store ?es)) = None"
           "append_fault (snd (append_all empty_store ?es)) = None"
    using appendEntry_success_faults [of "snd (append_all empty_store ?es)" sample_entry]
      ok appendEntry_no_fault [OF f, of sample_entry]
      appendEntry_no_fault [of "snd (appendEntry empty_store sample_entry)" empty_kind_entry]
    by (auto split: prod.splits option.splits)
  have ok': "fst (append_all (snd (append_all empty_store ?es)) [sample_entry]) = None"
    using f' by (rule append_all_no_fault)
  have c: "store_file sample_store = Content (JSON_stringify sample_entry @ [LF])"
    and g: "mkdir_fault sample_store = None" "append_fault sample_store = None"
    by (simp_all add: sample_store_def)
  have ok'': "fst (appendEntry sample_store empty_kind_entry) = None"
    using appendEntry_no_fault [OF g] by simp
  from append_then_load [of empty_store ?es "[sample_entry]"]
       append_then_load [of sample_store "[]" "[]" "JSON_stringify sample_entry @ [LF]" empty_kind_entry]
       a ok ok' c ok''
  show ?thesis by simp
qed

text \<open>
  C5. Loading from a store whose file is absent returns the empty list and no error. A
  read that fails with any error whose code is not \<open>ENOENT\<close> makes \<open>loadEntries\<close>
  throw that same error.
\<close>

theorem load_absent_or_unreadable:
  "loadEntries \<lparr> dir_exists = d, store_file = Absent, mkdir_fault = m, append_fault = a \<rparr> = Inr []
   \<and> (fs_readFile s = Inl e \<and> code e \<noteq> ''ENOENT'' \<longrightarrow> loadEntries s = Inl (IOFailure e))"
  by (simp add: loadEntries_def fs_readFile_def ENOENT_def)

theorem load_absent_or_unreadable_witness:
  "fs_readFile \<lparr> dir_exists = True, store_file = Unreadable \<lparr> code = ''EACCES'', syscall = ''open'' \<rparr>,
       mkdir_fault = None, append_fault = None \<rparr>
     = Inl \<lparr> code = ''EACCES'', syscall = ''open'' \<rparr>
   \<and> code \<lparr> code = ''EACCES'', syscall = ''open'' \<rparr> \<noteq> ''ENOENT''
   \<and> loadEntries \<lparr> dir_exists = True, store_file = Unreadable \<lparr> code = ''EACCES'', syscall = ''open'' \<rparr>,
       mkdir_fault = None, append_fault = None \<rparr>
     = Inl (IOFailure \<lparr> code = ''EACCES'', syscall = ''open'' \<rparr>)"
  using load_absent_or_unreadable
    [of True None None "\<lparr> dir_exists = True, store_file = Unreadable \<lparr> code = ''EACCES'', syscall = ''open'' \<rparr>,
       mkdir_fault = None, append_fault = None \<rparr>"
        "\<lparr> code = ''EACCES'', syscall = ''open'' \<rparr>"]
  by (simp add: fs_readFile_def)

section \<open>Corrupted files\<close>

lemma load_loop_first_failing:
  "n < length lines \<Longrightarrow> failing (lines ! n) \<Longrightarrow> (\<And>j. j < n \<Longrightarrow> \<not> failing (lines ! j)) \<Longrightarrow>
   load_loop lines i acc = Inl (line_error (i + n) (lines ! n))"
proof (induction lines arbitrary: n i acc)
  case Nil
  then show ?case by simp
next
  case (Cons line rest)
  show ?case
  proof (cases n)
    case 0
    with Cons.prems(2) show ?thesis
      by (auto simp add: failing_def decodes_def line_error_def split: option.splits)
  next
    case (Suc m)
    have ok: "\<not> failing line" using Cons.prems(3) [of 0] Suc by simp
    have m: "m < length rest" using Cons.prems(1) Suc by simp
    have fm: "failing (rest ! m)" using Cons.prems(2) Suc by simp
    have before: "\<And>j. j < m \<Longrightarrow> \<not> failing (rest ! j)"
    proof -
      fix j assume "j < m"
      then have "Suc j < n" using Suc by simp
      from Cons.prems(3) [OF this] show "\<not> failing (rest ! j)" by simp
    qed
    have ih: "\<And>i acc. load_loop rest i acc = Inl (line_error (i + m) (rest ! m))"
      using Cons.IH [OF m fm before] .
    show ?thesis
    proof (cases "line = []")
      case True
      then show ?thesis using ih [of "i + 1" acc] Suc by simp
    next
      case False
      with ok obtain parsed where p: "JSON_parse line = Some parsed" "isNoteEntry parsed"
        by (auto simp add: failing_def decodes_def split: option.splits)
      with False show ?thesis
        using ih [of "i + 1" "acc @ [as_NoteEntry parsed]"] Suc by simp
    qed
  qed
qed

lemma first_failing_exists:
  assumes "\<exists>i < length lines. failing (lines ! i)"
  shows "\<exists>n < length lines. failing (lines ! n) \<and> (\<forall>j < n. \<not> failing (lines ! j))"
proof -
  let ?P = "\<lambda>i. i < length lines \<and> failing (lines ! i)"
  from assms obtain i where "?P i" by blast
  then have l: "?P (LEAST i. ?P i)" by (rule LeastI)
  have "\<forall>j < (LEAST i. ?P i). \<not> failing (lines ! j)"
  proof (intro allI impI)
    fix j assume j: "j < (LEAST i. ?P i)"
    then have "\<not> ?P j" by (rule not_less_Least)
    moreover from j l have "j < length lines" by simp
    ultimately show "\<not> failing (lines ! j)" by simp
  qed
  with l show ?thesis by blast
qed

text \<open>
  C4. Corruption. When the file has a line that is not empty and does not decode (the text
  is not JSON, or the value fails \<open>isNoteEntry\<close>: not an object, a required field
  missing, a field that is not a string), \<open>loadEntries\<close> throws and returns no entry
  at all. The error carries the 1-based number of the first such line, with the message
  of the store format when the line is not JSON and the message of the note entry
  otherwise.
\<close>

theorem corrupt_line_aborts_load:
  assumes "store_file s = Content txt"
    and "\<exists>i < length (split_lines txt). failing (split_lines txt ! i)"
  shows "\<exists>n < length (split_lines txt).
           failing (split_lines txt ! n)
           \<and> (\<forall>j < n. \<not> failing (split_lines txt ! j))
           \<and> loadEntries s = Inl (line_error n (split_lines txt ! n))
           \<and> (loadEntries s = Inl (InvalidStoreFormat (n + 1))
              \<or> loadEntries s = Inl (InvalidNoteEntry (n + 1)))"
proof -
  from first_failing_exists [OF assms(2)] obtain n where
    n: "n < length (split_lines txt)" "failing (split_lines txt ! n)"
       "\<forall>j < n. \<not> failing (split_lines txt ! j)"
    by blast
  have "load_loop (split_lines txt) 0 [] = Inl (line_error (0 + n) (split_lines txt ! n))"
    using n by (intro load_loop_first_failing) auto
  then have l: "loadEntries s = Inl (line_error n (split_lines txt ! n))"
    using assms(1) by (simp add: loadEntries_def fs_readFile_def)
  have "line_error n (split_lines txt ! n) = InvalidStoreFormat (n + 1)
      \<or> line_error n (split_lines txt ! n) = InvalidNoteEntry (n + 1)"
    by (simp add: line_error_def split: option.splits)
  with l n show ?thesis by auto
qed

lemma lit_x: "lit ''oops'' = [0x6F, 0x6F, 0x70, 0x73]"
  by (simp add: lit_def)

lemma parse_oops: "JSON_parse (lit ''oops'') = None"
  unfolding lit_x JSON_parse_def
  by (subst parse_value.simps)
     (simp add: is_ws_def parse_scalar_def is_digit_def parse_literal_def lit_def)

lemma sample_lines:
  "split_lines sample_text = [JSON_stringify sample_entry, lit ''oops'', []]"
proof -
  have a: "split_from [] (JSON_stringify sample_entry @ LF # lit ''oops'' @ [LF])
      = ([] @ JSON_stringify sample_entry) # split_from [] (lit ''oops'' @ [LF])"
    using JSON_stringify_one_line [of sample_entry] by (intro split_from_line) simp_all
  have b: "split_from [] (lit ''oops'' @ [LF]) = [lit ''oops'', []]"
    by (simp add: lit_x)
  show ?thesis using a b by (simp add: split_lines_def sample_text_def)
qed

lemma sample_failing:
  "\<not> failing (JSON_stringify sample_entry) \<and> failing (lit ''oops'') \<and> \<not> failing []"
  by (simp add: failing_def decodes_def JSON_parse_stringify isNoteEntry_members parse_oops)
     (simp add: lit_x)

theorem corrupt_line_aborts_load_witness:
  "store_file \<lparr> dir_exists = True, store_file = Content sample_text, mkdir_fault = None, append_fault = None \<rparr> = Content sample_text
   \<and> (\<exists>i < length (split_lines sample_text). failing (split_lines sample_text ! i))
   \<and> loadEntries \<lparr> dir_exists = True, store_file = Content sample_text, mkdir_fault = None, append_fault = None \<rparr>
     = Inl (InvalidStoreFormat 2)"
proof -
  let ?s = "\<lparr> dir_exists = True, store_file = Content sample_text, mkdir_fault = None, append_fault = None \<rparr>"
  have h1: "store_file ?s = Content sample_text" by simp
  have f1: "failing (split_lines sample_text ! 1)"
    using sample_failing by (simp add: sample_lines)
  have "(1::nat) < length (split_lines sample_text)" by (simp add: sample_lines)
  with f1 have h2: "\<exists>i < length (split_lines sample_text). failing (split_lines sample_text ! i)"
    by blast
  from corrupt_line_aborts_load [OF h1 h2] obtain n where
    n: "n < length (split_lines sample_text)" "failing (split_lines sample_text ! n)"
       "loadEntries ?s = Inl (line_error n (split_lines sample_text ! n))"
    by blast
  from n(1) have "n = 0 \<or> n = 1 \<or> n = 2" by (auto simp add: sample_lines)
  then have "n = 1"
    using n(2) sample_failing by (auto simp add: sample_lines)
  then have "loadEntries ?s = Inl (InvalidStoreFormat 2)"
    using n(3) by (simp add: sample_lines line_error_def parse_oops)
  with h1 h2 show ?thesis by blast
qed

section \<open>Filters\<close>

lemma startsWith_iff: "startsWith s q \<longleftrightarrow> (\<exists>post. s = q @ post)"
  by (induction s q rule: startsWith.induct) auto

lemma String_includes_iff: "String_includes s q \<longleftrightarrow> (\<exists>pre post. s = pre @ q @ post)"
proof (induction s)
  case Nil
  show ?case by auto
next
  case (Cons c cs)
  show ?case
  proof
    assume "String_includes (c # cs) q"
    then have "startsWith (c # cs) q \<or> String_includes cs q" by simp
    then show "\<exists>pre post. c # cs = pre @ q @ post"
    proof
      assume "startsWith (c # cs) q"
      then obtain post where "c # cs = q @ post" by (auto simp add: startsWith_iff)
      then have "c # cs = [] @ q @ post" by simp
      then show ?thesis by blast
    next
      assume "String_includes cs q"
      then obtain pre post where "cs = pre @ q @ post" using Cons.IH by blast
      then have "c # cs = (c # pre) @ q @ post" by simp
      then show ?thesis by blast
    qed
  next
    assume "\<exists>pre post. c # cs = pre @ q @ post"
    then obtain pre post where e: "c # cs = pre @ q @ post" by blast
    show "String_includes (c # cs) q"
    proof (cases pre)
      case Nil
      with e have "startsWith (c # cs) q" by (auto simp add: startsWith_iff)
      then show ?thesis by simp
    next
      case (Cons p ps)
      with e have "cs = ps @ q @ post" by simp
      then have "String_includes cs q" using Cons.IH by blast
      then show ?thesis by simp
    qed
  qed
qed

text \<open>
  C6. Filters. The matches of \<open>notes.list_kind\<close> are exactly the loaded entries whose
  kind is defined and equal, code unit by code unit, to the query, in the order of the
  store; an entry without a kind is never among them. The matches of \<open>notes.find\<close> are
  exactly the loaded entries whose text has the query as a contiguous part, in the order
  of the store. Each tool formats its matches and leaves the store as it was.
\<close>

theorem filters_exact:
  "kind_matches entries k = filter (\<lambda>e. kind e = Some k) entries
   \<and> set (kind_matches entries k) = {e \<in> set entries. kind e \<noteq> None \<and> kind e = Some k}
   \<and> subseq (kind_matches entries k) entries
   \<and> contains_matches entries q = filter (\<lambda>e. \<exists>pre post. entry_text e = pre @ q @ post) entries
   \<and> subseq (contains_matches entries q) entries
   \<and> notes_list_kind s k =
       (case loadEntries s of
          Inl err \<Rightarrow> (Inl err, s)
        | Inr es \<Rightarrow>
            (Inr (ok_text (formatEntries (kind_matches es k)
                    (lit ''No notes found for kind '' @ k @ lit ''.''))), s))
   \<and> notes_find s q =
       (case loadEntries s of
          Inl err \<Rightarrow> (Inl err, s)
        | Inr es \<Rightarrow>
            (Inr (ok_text (formatEntries (contains_matches es q)
                    (lit ''No notes matched the exact substring.''))), s))"
  by (auto simp add: kind_matches_def contains_matches_def String_includes_iff
        notes_list_kind_def notes_find_def)

section \<open>Formatting an entry\<close>

lemma formatEntry_lines:
  "formatEntry entry =
     join [LF]
       ([lit ''id: '' @ entry_id entry, lit ''timestamp: '' @ timestamp entry]
        @ (case kind entry of None \<Rightarrow> [] | Some k \<Rightarrow> if k \<noteq> [] then [lit ''kind: '' @ k] else [])
        @ (case entry_file entry of None \<Rightarrow> [] | Some f \<Rightarrow> if f \<noteq> [] then [lit ''file: '' @ f] else [])
        @ [lit ''text:'', entry_text entry])"
  by (simp add: formatEntry_def Let_def split: option.splits)

lemma count_list_append: "count_list (xs @ ys) a = count_list xs a + count_list ys a"
  by (induction xs) simp_all

lemma count_list_absent: "a \<notin> set xs \<Longrightarrow> count_list xs a = 0"
  by (induction xs) auto

theorem formatEntry_empty_kind_counterexample:
  "kind empty_kind_entry = Some []
   \<and> formatEntry empty_kind_entry = lit ''id: a'' @ [LF] @ lit ''timestamp: t'' @ [LF] @ lit ''text:'' @ [LF] @ lit ''x''
   \<and> formatOne_spec empty_kind_entry
       = lit ''id: a'' @ [LF] @ lit ''timestamp: t'' @ [LF] @ lit ''kind: '' @ [LF] @ lit ''text:'' @ [LF] @ lit ''x''
   \<and> formatEntry empty_kind_entry \<noteq> formatOne_spec empty_kind_entry"
  by (simp add: formatEntry_lines formatOne_spec_def empty_kind_entry_def lit_def)

text \<open>
  C7, as amended. \<open>formatEntry\<close> is a function of the entry: the id line, the timestamp
  line, a kind line when the kind is present and not empty, a file line when the file is
  present and not empty, the line \<open>text:\<close>, then the text as it is, joined by line
  feeds. A \<open>teach.note\<close> call that is approved, has no file or an empty one and whose
  append succeeds answers with five strings joined by line feeds: the id, the timestamp,
  \<open>kind: teach.note\<close>, \<open>text:\<close> and the text; these are exactly five lines when the
  id, the timestamp and the text hold no line feed.
\<close>

theorem formatEntry_layout:
  "formatEntry entry =
     join [LF]
       ([lit ''id: '' @ entry_id entry, lit ''timestamp: '' @ timestamp entry]
        @ (case kind entry of None \<Rightarrow> [] | Some k \<Rightarrow> if k \<noteq> [] then [lit ''kind: '' @ k] else [])
        @ (case entry_file entry of None \<Rightarrow> [] | Some f \<Rightarrow> if f \<noteq> [] then [lit ''file: '' @ f] else [])
        @ [lit ''text:'', entry_text entry])
   \<and> (\<not> truthy file_arg \<longrightarrow>
        teach_note ev s txt True file_arg timestamp_arg =
          (case appendEntry s (makeEntry ev txt file_arg timestamp_arg (Some (lit ''teach.note''))) of
             (Some err, s') \<Rightarrow> (Inl err, s')
           | (None, s') \<Rightarrow>
               (Inr (ok_text (join [LF]
                  [lit ''id: '' @ randomUUID ev,
                   lit ''timestamp: '' @ (case timestamp_arg of None \<Rightarrow> now_ISO ev | Some t \<Rightarrow> t),
                   lit ''kind: teach.note'',
                   lit ''text:'',
                   txt])), s')))
   \<and> (LF \<notin> set i \<and> LF \<notin> set ts \<and> LF \<notin> set txt \<longrightarrow>
        line_count (join [LF]
          [lit ''id: '' @ i, lit ''timestamp: '' @ ts, lit ''kind: teach.note'', lit ''text:'', txt]) = 5)"
proof -
  have a: "\<not> truthy file_arg \<Longrightarrow>
      formatEntry (makeEntry ev txt file_arg timestamp_arg (Some (lit ''teach.note'')))
        = join [LF]
           [lit ''id: '' @ randomUUID ev,
            lit ''timestamp: '' @ (case timestamp_arg of None \<Rightarrow> now_ISO ev | Some t \<Rightarrow> t),
            lit ''kind: teach.note'', lit ''text:'', txt]"
    by (cases file_arg) (simp_all add: formatEntry_lines makeEntry_def lit_def)
  have b: "\<not> truthy file_arg \<Longrightarrow>
        teach_note ev s txt True file_arg timestamp_arg =
          (case appendEntry s (makeEntry ev txt file_arg timestamp_arg (Some (lit ''teach.note''))) of
             (Some err, s') \<Rightarrow> (Inl err, s')
           | (None, s') \<Rightarrow>
               (Inr (ok_text (join [LF]
                  [lit ''id: '' @ randomUUID ev,
                   lit ''timestamp: '' @ (case timestamp_arg of None \<Rightarrow> now_ISO ev | Some t \<Rightarrow> t),
                   lit ''kind: teach.note'',
                   lit ''text:'',
                   txt])), s'))"
  proof -
    assume h: "\<not> truthy file_arg"
    show ?thesis unfolding teach_note_def Let_def a [OF h] by simp
  qed
  have c: "LF \<notin> set i \<and> LF \<notin> set ts \<and> LF \<notin> set txt \<Longrightarrow>
        line_count (join [LF]
          [lit ''id: '' @ i, lit ''timestamp: '' @ ts, lit ''kind: teach.note'', lit ''text:'', txt]) = 5"
    by (simp add: line_count_def count_list_append count_list_absent lit_def)
  from b c show ?thesis by (simp only: formatEntry_lines) blast
qed

theorem formatEntry_layout_witness:
  "\<not> truthy None
   \<and> teach_note sample_env \<lparr> dir_exists = False, store_file = Absent, mkdir_fault = None, append_fault = None \<rparr>
        (lit ''use explicit types'') True None None
      = (Inr (ok_text (join [LF]
           [lit ''id: a'', lit ''timestamp: t'', lit ''kind: teach.note'', lit ''text:'',
            lit ''use explicit types''])),
         \<lparr> dir_exists = True,
           store_file = Content (JSON_stringify
             \<lparr> entry_id = lit ''a'', timestamp = lit ''t'', entry_text = lit ''use explicit types'',
               entry_file = None, kind = Some (lit ''teach.note'') \<rparr> @ [LF]),
           mkdir_fault = None, append_fault = None \<rparr>)
   \<and> LF \<notin> set (lit ''a'') \<and> LF \<notin> set (lit ''t'') \<and> LF \<notin> set (lit ''use explicit types'')
   \<and> line_count (join [LF]
        [lit ''id: a'', lit ''timestamp: t'', lit ''kind: teach.note'', lit ''text:'',
         lit ''use explicit types'']) = 5"
proof -
  let ?s = "\<lparr> dir_exists = False, store_file = Absent, mkdir_fault = None, append_fault = None \<rparr>"
  let ?txt = "lit ''use explicit types''"
  have nl: "LF \<notin> set (lit ''a'') \<and> LF \<notin> set (lit ''t'') \<and> LF \<notin> set ?txt"
    by (simp add: lit_def)
  have ap: "appendEntry ?s (makeEntry sample_env ?txt None None (Some (lit ''teach.note'')))
      = (None, \<lparr> dir_exists = True,
           store_file = Content (JSON_stringify
             \<lparr> entry_id = lit ''a'', timestamp = lit ''t'', entry_text = ?txt,
               entry_file = None, kind = Some (lit ''teach.note'') \<rparr> @ [LF]),
           mkdir_fault = None, append_fault = None \<rparr>)"
    using appendEntry_absent [of ?s] by (simp add: makeEntry_def sample_env_def)
  have ids: "lit ''id: '' @ lit ''a'' = lit ''id: a''" "lit ''timestamp: '' @ lit ''t'' = lit ''timestamp: t''"
    by (simp_all add: lit_def)
  note layout = formatEntry_layout
    [of empty_kind_entry None sample_env ?s ?txt None "lit ''a''" "lit ''t''", unfolded ap]
  have "truthy None = False" by simp
  with layout nl show ?thesis
    unfolding ap by (simp add: sample_env_def ids)
qed

section \<open>Getting a note by id, and the path of the store\<close>

lemma find_absent: "ident \<notin> entry_id ` set es \<Longrightarrow> find (\<lambda>item. entry_id item = ident) es = None"
  by (induction es) auto

lemma find_first:
  "entry_id e = ident \<Longrightarrow> ident \<notin> entry_id ` set pre \<Longrightarrow>
   find (\<lambda>item. entry_id item = ident) (pre @ e # post) = Some e"
  by (induction pre) auto

lemma load_sample_store: "loadEntries sample_store = Inr [sample_entry]"
  using loadEntries_encoded [of sample_store "[sample_entry]"]
  by (simp add: sample_store_def)

theorem notes_get_missing_counterexample:
  "loadEntries sample_store = Inr [sample_entry]
   \<and> lit ''x'' \<notin> entry_id ` set [sample_entry]
   \<and> notes_get sample_store (lit ''x'')
       = (Inr \<lparr> isError = True, content_text = lit ''No note found for id x.'' \<rparr>, sample_store)
   \<and> isError (projr (fst (notes_get sample_store (lit ''x'')))) = True"
  by (simp add: notes_get_def load_sample_store) (simp add: sample_entry_def lit_def)

text \<open>
  C9, as amended. When the store loads and no loaded entry has the id asked for,
  \<open>notes.get\<close> throws nothing: it returns a result with the not-found message, and this
  result has its flag \<open>isError\<close> set. When an entry has the id, it returns the format
  of the first such entry in the order of the store, not flagged. The store is left as it
  was in both cases.
\<close>

theorem notes_get_result:
  "(loadEntries s = Inr es \<and> ident \<notin> entry_id ` set es \<longrightarrow>
      notes_get s ident
        = (Inr \<lparr> isError = True, content_text = lit ''No note found for id '' @ ident @ lit ''.'' \<rparr>, s))
   \<and> (loadEntries s = Inr (pre @ e # post) \<and> entry_id e = ident \<and> ident \<notin> entry_id ` set pre \<longrightarrow>
      notes_get s ident = (Inr \<lparr> isError = False, content_text = formatEntry e \<rparr>, s))"
  by (simp add: notes_get_def find_absent find_first ok_text_def)

theorem notes_get_result_witness:
  "loadEntries sample_store = Inr [sample_entry]
   \<and> lit ''x'' \<notin> entry_id ` set [sample_entry]
   \<and> notes_get sample_store (lit ''x'')
       = (Inr \<lparr> isError = True, content_text = lit ''No note found for id '' @ lit ''x'' @ lit ''.'' \<rparr>,
          sample_store)
   \<and> loadEntries sample_store = Inr ([] @ sample_entry # [])
   \<and> entry_id sample_entry = lit ''a''
   \<and> lit ''a'' \<notin> entry_id ` set []
   \<and> notes_get sample_store (lit ''a'')
       = (Inr \<lparr> isError = False, content_text = formatEntry sample_entry \<rparr>, sample_store)"
proof -
  have a: "lit ''x'' \<notin> entry_id ` set [sample_entry]"
    by (simp add: sample_entry_def lit_def)
  have b: "entry_id sample_entry = lit ''a''"
    by (simp add: sample_entry_def)
  from notes_get_result [of sample_store "[sample_entry]" "lit ''x''" "[]" sample_entry "[]"]
       notes_get_result [of sample_store "[sample_entry]" "lit ''a''" "[]" sample_entry "[]"]
       a b load_sample_store
  show ?thesis by simp
qed

text \<open>
  C10. Path resolution. When the environment variable is not set, or is set to the empty
  string, \<open>resolveStorePath\<close> returns the default path, which is \<open>path.join\<close> of the
  home directory, \<open>.threadkeeper\<close> and \<open>notes.jsonl\<close>. For every other value it
  returns \<open>path.resolve\<close> of that value.
\<close>

theorem resolveStorePath_cases:
  "resolveStorePath p None = DEFAULT_STORE_PATH p
   \<and> resolveStorePath p (Some []) = DEFAULT_STORE_PATH p
   \<and> DEFAULT_STORE_PATH p = path_join p [homedir p, lit ''.threadkeeper'', lit ''notes.jsonl'']
   \<and> (v \<noteq> [] \<longrightarrow> resolveStorePath p (Some v) = path_resolve p v)"
  by (simp add: resolveStorePath_def DEFAULT_STORE_PATH_def)

theorem resolveStorePath_cases_witness:
  "lit ''notes.jsonl'' \<noteq> []
   \<and> resolveStorePath sample_platform (Some (lit ''notes.jsonl'')) = lit ''/work/notes.jsonl''
   \<and> resolveStorePath sample_platform (Some []) = lit ''/home/u/.threadkeeper/notes.jsonl''"
  using resolveStorePath_cases [of sample_platform "lit ''notes.jsonl''"]
  by (simp add: sample_platform_def lit_def)

end
